theory Spec2Isabelle
  imports Main "HOL-Library.Word"
begin

unbundle bit_operations_syntax

section \<open>Data model of the trace buffer\<close>

text \<open>
  The embedding follows \<^verbatim>\<open>src/services/trace/TraceBufferChunk.cpp\<close>.
  Bytes are \<open>8 word\<close>, identifiers (\<^verbatim>\<open>cali_id_t\<close>) and the argument of the varint
  coder are \<open>64 word\<close>. The \<^verbatim>\<open>size_t\<close> members \<^verbatim>\<open>m_size\<close>, \<^verbatim>\<open>m_pos\<close> and
  \<^verbatim>\<open>m_nrec\<close> are natural numbers; where the source computes with an unbounded input
  in \<^verbatim>\<open>size_t\<close> (the estimate of \<^verbatim>\<open>fits\<close>, the emptiness test of
  \<^verbatim>\<open>save_snapshot\<close>) the reduction modulo \<open>2 ^ 64\<close> is written out.
\<close>

type_synonym byte = "8 word"
type_synonym u64 = "64 word"
type_synonym cali_id_t = "64 word"

definition SNAP_MAX :: nat where
  "SNAP_MAX = 80"

definition SIZE_T_RANGE :: nat where
  "SIZE_T_RANGE = 2 ^ 64"

text \<open>
  Modelled from the spec: the context node (\<^verbatim>\<open>Node.h\<close> is not among the sources).
  A node is identified by its integer id (\<^verbatim>\<open>Node::id()\<close>, read by
  \<^verbatim>\<open>save_snapshot\<close>) and refers to its parent.
\<close>

datatype Node = Node (id_Node: cali_id_t) (parent: "Node option")

text \<open>
  Modelled from the spec: the snapshot (\<^verbatim>\<open>EntryList.h\<close> is not among the sources):
  an ordered sequence of node references and two parallel sequences, the immediate
  attribute ids and their tagged values. \<^verbatim>\<open>EntryList::size()\<close> reports the number
  of node entries and the number of immediate entries. The type of tagged values
  (\<^verbatim>\<open>Variant\<close>) is the parameter \<open>'v\<close>.
\<close>

record 'v EntryList =
  node_entries :: "Node list"
  immediate_attr :: "cali_id_t list"
  immediate_data :: "'v list"

definition n_nodes :: "'v EntryList \<Rightarrow> nat" where
  "n_nodes s = length (node_entries s)"

definition n_immediate :: "'v EntryList \<Rightarrow> nat" where
  "n_immediate s = length (immediate_attr s)"

text \<open>The two immediate sequences of a snapshot are parallel.\<close>

definition parallel_immediates :: "'v EntryList \<Rightarrow> bool" where
  "parallel_immediates s = (length (immediate_data s) = length (immediate_attr s))"

text \<open>
  The coder the chunk calls is not among the sources (\<^verbatim>\<open>c-util/vlenc.h\<close> and the
  class \<^verbatim>\<open>Variant\<close>), so it is a parameter of every operation below:
  \<^item> \<open>vlenc_u64 v\<close> are the bytes \<^verbatim>\<open>vlenc_u64(v, buf)\<close> writes (it returns their number);
  \<^item> \<open>vldec_u64 bs\<close> is the value \<^verbatim>\<open>vldec_u64(buf, &p)\<close> reads from the bytes \<open>bs\<close> at
    \<^verbatim>\<open>buf\<close> and the number of bytes it adds to \<^verbatim>\<open>p\<close>; \<open>None\<close> when the bytes hold
    no terminated value (the read leaves the buffer: undefined behaviour);
  \<^item> \<open>pack x\<close> and \<open>unpack bs\<close> likewise for \<^verbatim>\<open>Variant::pack\<close> and
    \<^verbatim>\<open>Variant::unpack\<close>;
  \<^item> \<open>Variant_of_id i\<close> is the constructor \<^verbatim>\<open>Variant(cali_id_t)\<close> and \<open>to_id\<close> is
    \<^verbatim>\<open>Variant::to_id()\<close>.
\<close>

record 'v coder =
  vlenc_u64 :: "u64 \<Rightarrow> byte list"
  vldec_u64 :: "byte list \<Rightarrow> (u64 \<times> nat) option"
  pack :: "'v \<Rightarrow> byte list"
  unpack :: "byte list \<Rightarrow> ('v \<times> nat) option"
  Variant_of_id :: "cali_id_t \<Rightarrow> 'v"
  to_id :: "'v \<Rightarrow> cali_id_t"

text \<open>
  The chunk: capacity, write position, record count, the byte array and the owned
  successor (\<open>None\<close> is the null pointer).
\<close>

datatype TraceBufferChunk =
  TraceBufferChunk (m_size: nat) (m_pos: nat) (m_nrec: nat) (m_data: "byte list")
    (m_next: "TraceBufferChunk option")

text \<open>
  Modelled from the spec: the constructor (\<^verbatim>\<open>TraceBufferChunk.h\<close> is not among the
  sources): a chunk of the given capacity, empty, with no successor.
\<close>

definition new_chunk :: "nat \<Rightarrow> TraceBufferChunk" where
  "new_chunk s = TraceBufferChunk s 0 0 (replicate s 0) None"

text \<open>
  The destructor deletes the byte array and then the successor; its value here is
  the number of chunk objects it releases.
\<close>

fun destroy :: "TraceBufferChunk \<Rightarrow> nat" where
  "destroy (TraceBufferChunk sz pos nrec dat nxt) =
     Suc (case nxt of None \<Rightarrow> 0 | Some c \<Rightarrow> destroy c)"

fun append_chunk :: "TraceBufferChunk \<Rightarrow> TraceBufferChunk \<Rightarrow> TraceBufferChunk" where
  "append_chunk (TraceBufferChunk sz pos nrec dat nxt) chunk =
     (case nxt of
        Some c \<Rightarrow> TraceBufferChunk sz pos nrec dat (Some (append_chunk c chunk))
      | None \<Rightarrow> TraceBufferChunk sz pos nrec dat (Some chunk))"

definition reset :: "TraceBufferChunk \<Rightarrow> TraceBufferChunk" where
  "reset c = TraceBufferChunk (m_size c) 0 0 (replicate (m_size c) 0) (m_next c)"

section \<open>Saving a snapshot\<close>

text \<open>
  One statement \<^verbatim>\<open>m_pos += enc(x, m_data + m_pos)\<close>: the bytes go to the array at
  \<open>m_pos\<close> and the position moves past them. The source checks no bound; a write
  that leaves the array is undefined behaviour, here the result \<open>None\<close>.
\<close>

definition put :: "byte list \<Rightarrow> TraceBufferChunk \<Rightarrow> TraceBufferChunk option" where
  "put bs c =
     (if m_pos c + length bs \<le> length (m_data c)
      then Some (TraceBufferChunk (m_size c) (m_pos c + length bs) (m_nrec c)
                  (take (m_pos c) (m_data c) @ bs @ drop (m_pos c + length bs) (m_data c))
                  (m_next c))
      else None)"

text \<open>One of the three \<^verbatim>\<open>for\<close> loops of \<^verbatim>\<open>save_snapshot\<close>, over the entries it visits.\<close>

fun put_each :: "('a \<Rightarrow> byte list) \<Rightarrow> 'a list \<Rightarrow> TraceBufferChunk \<Rightarrow> TraceBufferChunk option" where
  "put_each enc [] c = Some c"
| "put_each enc (x # xs) c =
     (case put (enc x) c of None \<Rightarrow> None | Some c' \<Rightarrow> put_each enc xs c')"

definition incr_nrec :: "TraceBufferChunk \<Rightarrow> TraceBufferChunk" where
  "incr_nrec c = TraceBufferChunk (m_size c) (m_pos c) (Suc (m_nrec c)) (m_data c) (m_next c)"

definition save_snapshot :: "'v coder \<Rightarrow> 'v EntryList \<Rightarrow> TraceBufferChunk \<Rightarrow> TraceBufferChunk option" where
  "save_snapshot cd s c =
     (if (n_nodes s + n_immediate s) mod SIZE_T_RANGE = 0 then Some c
      else
        let nn = min (n_nodes s) SNAP_MAX;
            ni = min (n_immediate s) SNAP_MAX
        in
          Option.bind (put (vlenc_u64 cd (of_nat nn)) c) (\<lambda>c1.
          Option.bind (put (vlenc_u64 cd (of_nat ni)) c1) (\<lambda>c2.
          Option.bind (put_each (\<lambda>n. vlenc_u64 cd (id_Node n)) (take nn (node_entries s)) c2) (\<lambda>c3.
          Option.bind (put_each (vlenc_u64 cd) (take ni (immediate_attr s)) c3) (\<lambda>c4.
          Option.bind (put_each (pack cd) (take ni (immediate_data s)) c4) (\<lambda>c5.
          Some (incr_nrec c5)))))))"

section \<open>The admission test\<close>

definition fits :: "TraceBufferChunk \<Rightarrow> 'v EntryList \<Rightarrow> bool" where
  "fits c s =
     (let mx = (20 + 10 * n_nodes s + 32 * n_immediate s) mod SIZE_T_RANGE
      in (m_pos c + mx) mod SIZE_T_RANGE < m_size c)"

section \<open>Usage information\<close>

record UsageInfo =
  nchunks :: nat
  reserved :: nat
  used :: nat

fun info :: "TraceBufferChunk \<Rightarrow> UsageInfo" where
  "info (TraceBufferChunk sz pos nrec dat nxt) =
     (let i = (case nxt of None \<Rightarrow> \<lparr>nchunks = 0, reserved = 0, used = 0\<rparr> | Some c \<Rightarrow> info c)
      in \<lparr>nchunks = nchunks i + 1, reserved = reserved i + sz, used = used i + pos\<rparr>)"

section \<open>Flushing\<close>

text \<open>
  Modelled from the spec: the runtime \<^verbatim>\<open>Caliper\<close> (not among the sources), as far as
  \<^verbatim>\<open>flush\<close> uses it: \<^verbatim>\<open>c->node(id)\<close> resolves an id to the node of the context tree
  with that id, or to the null pointer.
\<close>

record Caliper =
  tree_nodes :: "Node list"

definition node :: "Caliper \<Rightarrow> cali_id_t \<Rightarrow> Node option" where
  "node c i = find (\<lambda>n. id_Node n = i) (tree_nodes c)"

text \<open>
  What reaches the sink, in order: a call \<^verbatim>\<open>node->write_path(write_record)\<close>, whose
  traversal of the ancestors is external, and a call of \<^verbatim>\<open>write_record\<close> with the
  descriptor of a context record, the three counts and the three vectors (each
  vector up to its count).
\<close>

datatype 'v event =
  WritePath Node
| WriteRecord int int int "'v list" "'v list" "'v list"

text \<open>
  What \<^verbatim>\<open>flush\<close> changes outside the chain: the caller's cache of written node ids,
  the sink, and the number of chunk objects released by \<^verbatim>\<open>delete\<close>.
\<close>

record 'v outside =
  written_node_cache :: "cali_id_t set"
  sink :: "'v event list"
  released :: nat

text \<open>
  A decoded count: \<^verbatim>\<open>std::min(static_cast<int>(vldec_u64(..)), SNAP_MAX)\<close>, the
  conversion to a 32-bit \<^verbatim>\<open>int\<close> keeping the low 32 bits.
\<close>

definition decode_count :: "u64 \<Rightarrow> int" where
  "decode_count v = min (sint (ucast v :: 32 word)) (int SNAP_MAX)"

text \<open>
  A decoding loop \<^verbatim>\<open>for (i = 0; i < n; ++i) vec[i] = dec(m_data + p, &p)\<close>: the values
  read and the new \<open>p\<close>.
\<close>

fun decode_each :: "(byte list \<Rightarrow> ('a \<times> nat) option) \<Rightarrow> nat \<Rightarrow> byte list \<Rightarrow> nat \<Rightarrow> ('a list \<times> nat) option" where
  "decode_each dec 0 dat p = Some ([], p)"
| "decode_each dec (Suc n) dat p =
     (case dec (drop p dat) of
        None \<Rightarrow> None
      | Some (x, k) \<Rightarrow>
          (case decode_each dec n dat (p + k) of
             None \<Rightarrow> None
           | Some (xs, p') \<Rightarrow> Some (x # xs, p')))"

text \<open>The loops "write nodes" of \<^verbatim>\<open>flush\<close>, over a decoded vector.\<close>

fun write_nodes :: "'v coder \<Rightarrow> Caliper \<Rightarrow> 'v list \<Rightarrow> 'v outside \<Rightarrow> 'v outside" where
  "write_nodes cd c [] out = out"
| "write_nodes cd c (x # xs) out =
     (let node_id = to_id cd x in
      if node_id \<in> written_node_cache out then write_nodes cd c xs out
      else
        let out1 = (case node c (to_id cd x) of
                      Some n \<Rightarrow> out\<lparr>sink := sink out @ [WritePath n]\<rparr>
                    | None \<Rightarrow> out)
        in write_nodes cd c xs
             (out1\<lparr>written_node_cache := insert node_id (written_node_cache out1)\<rparr>))"

text \<open>One iteration of the record loop: decode a record at \<open>p\<close>, write its nodes, write it.\<close>

definition flush_record :: "'v coder \<Rightarrow> Caliper \<Rightarrow> byte list \<Rightarrow> nat \<Rightarrow> 'v outside \<Rightarrow> (nat \<times> 'v outside) option" where
  "flush_record cd c dat p out =
     Option.bind (vldec_u64 cd (drop p dat)) (\<lambda>(v1, k1).
     Option.bind (vldec_u64 cd (drop (p + k1) dat)) (\<lambda>(v2, k2).
     let nn = decode_count v1; na = decode_count v2 in
     Option.bind (decode_each (vldec_u64 cd) (nat nn) dat (p + k1 + k2)) (\<lambda>(node_ids, p1).
     Option.bind (decode_each (vldec_u64 cd) (nat na) dat p1) (\<lambda>(attr_ids, p2).
     Option.bind (decode_each (unpack cd) (nat na) dat p2) (\<lambda>(vals_vec, p3).
     let node_vec = map (Variant_of_id cd) node_ids;
         attr_vec = map (Variant_of_id cd) attr_ids;
         out1 = write_nodes cd c node_vec out;
         out2 = write_nodes cd c attr_vec out1
     in Some (p3, out2\<lparr>sink := sink out2 @ [WriteRecord nn na na node_vec attr_vec vals_vec]\<rparr>))))))"

text \<open>The record loop \<^verbatim>\<open>for (r = 0; r < m_nrec; ++r)\<close>, by the records left.\<close>

fun flush_records :: "'v coder \<Rightarrow> Caliper \<Rightarrow> byte list \<Rightarrow> nat \<Rightarrow> nat \<Rightarrow> 'v outside \<Rightarrow> 'v outside option" where
  "flush_records cd c dat 0 p out = Some out"
| "flush_records cd c dat (Suc r) p out =
     (case flush_record cd c dat p out of
        None \<Rightarrow> None
      | Some (p', out') \<Rightarrow> flush_records cd c dat r p' out')"

text \<open>
  \<^verbatim>\<open>flush\<close>: the records of this chunk, \<^verbatim>\<open>reset\<close>, then the successor, which is
  deleted and unlinked (\<open>clear_next\<close> is the assignment \<^verbatim>\<open>m_next = 0\<close>). The result is the number of records written, the chunk
  afterwards and the state outside.
\<close>

definition clear_next :: "TraceBufferChunk \<Rightarrow> TraceBufferChunk" where
  "clear_next c = TraceBufferChunk (m_size c) (m_pos c) (m_nrec c) (m_data c) None"

fun flush :: "'v coder \<Rightarrow> Caliper \<Rightarrow> TraceBufferChunk \<Rightarrow> 'v outside \<Rightarrow> (nat \<times> TraceBufferChunk \<times> 'v outside) option" where
  "flush cd c (TraceBufferChunk sz pos nrec dat nxt) out =
     (case flush_records cd c dat nrec 0 out of
        None \<Rightarrow> None
      | Some out1 \<Rightarrow>
          (case nxt of
             None \<Rightarrow> Some (nrec, reset (TraceBufferChunk sz pos nrec dat nxt), out1)
           | Some nx \<Rightarrow>
               (case flush cd c nx out1 of
                  None \<Rightarrow> None
                | Some (w, nx', out2) \<Rightarrow>
                    Some (nrec + w,
                          clear_next (reset (TraceBufferChunk sz pos nrec dat nxt)),
                          out2\<lparr>released := released out2 + destroy nx'\<rparr>))))"

section \<open>A coder after the specification\<close>

text \<open>
  Modelled from the spec: \<^verbatim>\<open>vlenc_u64\<close> and \<^verbatim>\<open>vldec_u64\<close> (\<^verbatim>\<open>c-util/vlenc.h\<close> is
  not among the sources). The specification's \<^verbatim>\<open>encode_varint\<close> writes the value
  in base 128, least significant digit first, seven payload bits to a byte, the high
  bit of a byte saying that more bytes follow; \<^verbatim>\<open>decode_varint\<close> is its inverse
  and reports the bytes it consumed.
\<close>

fun varint_bytes :: "nat \<Rightarrow> byte list" where
  "varint_bytes n =
     (if n < 128 then [of_nat n] else of_nat (n mod 128 + 128) # varint_bytes (n div 128))"

fun varint_value :: "byte list \<Rightarrow> (nat \<times> nat) option" where
  "varint_value [] = None"
| "varint_value (b # bs) =
     (if unat b < 128 then Some (unat b, 1)
      else
        (case varint_value bs of
           None \<Rightarrow> None
         | Some (v, k) \<Rightarrow> Some (unat b - 128 + 128 * v, Suc k)))"

definition encode_varint :: "u64 \<Rightarrow> byte list" where
  "encode_varint v = varint_bytes (unat v)"

definition decode_varint :: "byte list \<Rightarrow> (u64 \<times> nat) option" where
  "decode_varint bs =
     (case varint_value bs of None \<Rightarrow> None | Some (n, k) \<Rightarrow> Some (of_nat n, k))"

text \<open>
  Modelled from the spec: the tagged value (the class \<^verbatim>\<open>Variant\<close> is not among the
  sources): a type tag and a scalar payload, packed as the tag byte and the payload's
  varint, so that a value decodes in isolation.
\<close>

datatype Variant = Variant (type_tag: byte) (payload: u64)

definition ID_TAG :: byte where
  "ID_TAG = 3"

fun encode_tagged_value :: "Variant \<Rightarrow> byte list" where
  "encode_tagged_value (Variant t v) = t # encode_varint v"

fun decode_tagged_value :: "byte list \<Rightarrow> (Variant \<times> nat) option" where
  "decode_tagged_value [] = None"
| "decode_tagged_value (t # bs) =
     (case decode_varint bs of
        None \<Rightarrow> None
      | Some (v, k) \<Rightarrow> Some (Variant t v, Suc k))"

definition spec_coder :: "Variant coder" where
  "spec_coder =
     \<lparr>vlenc_u64 = encode_varint, vldec_u64 = decode_varint,
      pack = encode_tagged_value, unpack = decode_tagged_value,
      Variant_of_id = Variant ID_TAG, to_id = payload\<rparr>"

section \<open>What the chunk expects of the coder\<close>

text \<open>
  Decoding undoes encoding, whatever follows the encoded bytes in the buffer, and
  \<^verbatim>\<open>to_id\<close> reads back the id a \<^verbatim>\<open>Variant\<close> was made of.
\<close>

definition coder_roundtrip :: "'v coder \<Rightarrow> bool" where
  "coder_roundtrip cd =
     ((\<forall>v rest. vldec_u64 cd (vlenc_u64 cd v @ rest) = Some (v, length (vlenc_u64 cd v)))
    \<and> (\<forall>x rest. unpack cd (pack cd x @ rest) = Some (x, length (pack cd x)))
    \<and> (\<forall>i. to_id cd (Variant_of_id cd i) = i))"

text \<open>
  The sizes the comment in \<^verbatim>\<open>fits\<close> counts on: at most 10 bytes for a varint and at
  most 22 bytes for a packed \<^verbatim>\<open>Variant\<close>.
\<close>

definition coder_bounded :: "'v coder \<Rightarrow> bool" where
  "coder_bounded cd =
     ((\<forall>v. length (vlenc_u64 cd v) \<le> 10) \<and> (\<forall>x. length (pack cd x) \<le> 22))"

text \<open>
  Stated from the spec (section 4.2): the admission formula with both counts clamped
  to \<open>SNAP_MAX\<close>, to be compared with \<open>fits\<close>.
\<close>

definition fits_spec :: "TraceBufferChunk \<Rightarrow> 'v EntryList \<Rightarrow> bool" where
  "fits_spec c s =
     (m_pos c + (20 + 10 * min (n_nodes s) SNAP_MAX + 32 * min (n_immediate s) SNAP_MAX)
        < m_size c)"

section \<open>Describing what a chunk holds and what a flush emits\<close>

text \<open>
  The bytes \<open>save_snapshot\<close> appends for a snapshot that is not empty: the two
  clamped counts, the node ids, the attribute ids and the packed values.
\<close>

definition encode_record :: "'v coder \<Rightarrow> 'v EntryList \<Rightarrow> byte list" where
  "encode_record cd s =
     (let nn = min (n_nodes s) SNAP_MAX;
          ni = min (n_immediate s) SNAP_MAX
      in vlenc_u64 cd (of_nat nn) @ vlenc_u64 cd (of_nat ni)
         @ concat (map (\<lambda>n. vlenc_u64 cd (id_Node n)) (take nn (node_entries s)))
         @ concat (map (vlenc_u64 cd) (take ni (immediate_attr s)))
         @ concat (map (pack cd) (take ni (immediate_data s))))"

text \<open>
  A chain holds the records \<open>sss\<close>, one list of snapshots for each chunk: the
  array has the capacity's length, the record count is the number of snapshots, and
  the bytes before the position are their encodings, one after the other.
\<close>

fun chain_holds :: "'v coder \<Rightarrow> TraceBufferChunk \<Rightarrow> 'v EntryList list list \<Rightarrow> bool" where
  "chain_holds cd (TraceBufferChunk sz pos nrec dat nxt) [] = False"
| "chain_holds cd (TraceBufferChunk sz pos nrec dat nxt) (ss # rest) =
     (sz = length dat \<and> nrec = length ss
      \<and> pos = length (concat (map (encode_record cd) ss))
      \<and> take pos dat = concat (map (encode_record cd) ss)
      \<and> list_all parallel_immediates ss
      \<and> (case nxt of None \<Rightarrow> rest = [] | Some nx \<Rightarrow> chain_holds cd nx rest))"

text \<open>The chunks of a chain, head first, and the records they count together.\<close>

fun chunks_of :: "TraceBufferChunk \<Rightarrow> TraceBufferChunk list" where
  "chunks_of (TraceBufferChunk sz pos nrec dat nxt) =
     TraceBufferChunk sz pos nrec dat nxt # (case nxt of None \<Rightarrow> [] | Some c \<Rightarrow> chunks_of c)"

definition total_records :: "TraceBufferChunk \<Rightarrow> nat" where
  "total_records c = sum_list (map m_nrec (chunks_of c))"

text \<open>
  The ids a record refers to, in the order \<^verbatim>\<open>flush\<close> visits them: the node ids, then
  the attribute ids, each sequence up to \<open>SNAP_MAX\<close>.
\<close>

definition record_ids :: "'v EntryList \<Rightarrow> cali_id_t list" where
  "record_ids s = map id_Node (take SNAP_MAX (node_entries s)) @ take SNAP_MAX (immediate_attr s)"

text \<open>The snapshot-level emission of a record.\<close>

definition record_event :: "'v coder \<Rightarrow> 'v EntryList \<Rightarrow> 'v event" where
  "record_event cd s =
     WriteRecord (int (min (n_nodes s) SNAP_MAX)) (int (min (n_immediate s) SNAP_MAX))
       (int (min (n_immediate s) SNAP_MAX))
       (map (\<lambda>n. Variant_of_id cd (id_Node n)) (take SNAP_MAX (node_entries s)))
       (map (Variant_of_id cd) (take SNAP_MAX (immediate_attr s)))
       (take (min (n_immediate s) SNAP_MAX) (immediate_data s))"

text \<open>
  The ids of a sequence that are not in the cache \<open>C\<close>, each at its first occurrence,
  and the path emissions for those of them the context tree resolves.
\<close>

fun fresh_ids :: "cali_id_t set \<Rightarrow> cali_id_t list \<Rightarrow> cali_id_t list" where
  "fresh_ids C [] = []"
| "fresh_ids C (i # js) = (if i \<in> C then fresh_ids C js else i # fresh_ids (insert i C) js)"

definition path_events :: "Caliper \<Rightarrow> cali_id_t list \<Rightarrow> 'v event list" where
  "path_events c js =
     concat (map (\<lambda>j. case node c j of None \<Rightarrow> [] | Some n \<Rightarrow> [WritePath n]) js)"

text \<open>
  What flushing the records \<open>ss\<close> adds to the sink when the cache is \<open>C\<close>: for each
  record the paths of its fresh ids, then the record.
\<close>

fun new_events :: "'v coder \<Rightarrow> Caliper \<Rightarrow> cali_id_t set \<Rightarrow> 'v EntryList list \<Rightarrow> 'v event list" where
  "new_events cd c C [] = []"
| "new_events cd c C (s # ss) =
     path_events c (fresh_ids C (record_ids s)) @ record_event cd s
       # new_events cd c (C \<union> set (record_ids s)) ss"

text \<open>What one iteration of the record loop does outside, for a record that holds \<open>s\<close>.\<close>

definition emit_record :: "'v coder \<Rightarrow> Caliper \<Rightarrow> 'v EntryList \<Rightarrow> 'v outside \<Rightarrow> 'v outside" where
  "emit_record cd c s out =
     (let nn = min (n_nodes s) SNAP_MAX;
          ni = min (n_immediate s) SNAP_MAX;
          node_vec = map (\<lambda>n. Variant_of_id cd (id_Node n)) (take nn (node_entries s));
          attr_vec = map (Variant_of_id cd) (take ni (immediate_attr s));
          out1 = write_nodes cd c node_vec out;
          out2 = write_nodes cd c attr_vec out1
      in out2\<lparr>sink := sink out2
           @ [WriteRecord (int nn) (int ni) (int ni) node_vec attr_vec (take ni (immediate_data s))]\<rparr>)"

definition emit_records :: "'v coder \<Rightarrow> Caliper \<Rightarrow> 'v EntryList list \<Rightarrow> 'v outside \<Rightarrow> 'v outside" where
  "emit_records cd c ss out = foldl (\<lambda>acc s. emit_record cd c s acc) out ss"

text \<open>Counting emissions in a sequence of events.\<close>

fun is_WriteRecord :: "'v event \<Rightarrow> bool" where
  "is_WriteRecord (WriteRecord n1 n2 n3 d1 d2 d3) = True"
| "is_WriteRecord (WritePath n) = False"

definition n_record_emissions :: "'v event list \<Rightarrow> nat" where
  "n_record_emissions es = length (filter is_WriteRecord es)"

definition n_path_emissions :: "Node \<Rightarrow> 'v event list \<Rightarrow> nat" where
  "n_path_emissions n es = length (filter (\<lambda>e. e = WritePath n) es)"

text \<open>The snapshot cut to its first \<open>SNAP_MAX\<close> node entries and immediate entries.\<close>

definition clamped :: "'v EntryList \<Rightarrow> 'v EntryList" where
  "clamped s =
     \<lparr>node_entries = take SNAP_MAX (node_entries s),
      immediate_attr = take SNAP_MAX (immediate_attr s),
      immediate_data = take SNAP_MAX (immediate_data s)\<rparr>"

section \<open>A scenario\<close>

text \<open>
  The scenario of the specification (section 8): node ids 5, 9 and 12, the immediate
  pairs (2, 7) and (3, "x"). In the context tree below, id 12 has no node.
\<close>

definition scenario_snapshot :: "Variant EntryList" where
  "scenario_snapshot =
     \<lparr>node_entries = [Node 5 None, Node 9 (Some (Node 5 None)), Node 12 None],
      immediate_attr = [2, 3],
      immediate_data = [Variant 1 7, Variant 2 120]\<rparr>"

definition scenario_tree :: Caliper where
  "scenario_tree =
     \<lparr>tree_nodes = [Node 2 None, Node 3 None, Node 5 None, Node 9 (Some (Node 5 None))]\<rparr>"

definition scenario_chunk :: TraceBufferChunk where
  "scenario_chunk =
     TraceBufferChunk 32 11 1 ([3, 2, 5, 9, 12, 2, 3, 1, 7, 2, 120] @ replicate 21 0) None"

definition nothing_written :: "Variant outside" where
  "nothing_written = \<lparr>written_node_cache = {}, sink = [], released = 0\<rparr>"

text \<open>A snapshot of 81 entries for the same node and one immediate pair.\<close>

definition wide_snapshot :: "Variant EntryList" where
  "wide_snapshot =
     \<lparr>node_entries = replicate 81 (Node 5 None),
      immediate_attr = [2],
      immediate_data = [Variant 1 7]\<rparr>"

definition wide_chunk :: TraceBufferChunk where
  "wide_chunk =
     TraceBufferChunk 128 85 1 ([80, 1] @ replicate 80 5 @ [2, 1, 7] @ replicate 43 0) None"

text \<open>
  A snapshot of one node, a chunk that holds the scenario's snapshot twice, the same
  chunk with a successor that holds the one-node snapshot, and a state outside in
  which ids 5 and 77 are already in the cache.
\<close>

definition narrow_snapshot :: "Variant EntryList" where
  "narrow_snapshot =
     \<lparr>node_entries = [Node 9 (Some (Node 5 None))], immediate_attr = [], immediate_data = []\<rparr>"

definition twice_chunk :: TraceBufferChunk where
  "twice_chunk =
     TraceBufferChunk 32 22 2
       ([3, 2, 5, 9, 12, 2, 3, 1, 7, 2, 120, 3, 2, 5, 9, 12, 2, 3, 1, 7, 2, 120] @ replicate 10 0)
       None"

definition scenario_chain :: TraceBufferChunk where
  "scenario_chain =
     TraceBufferChunk 32 22 2
       ([3, 2, 5, 9, 12, 2, 3, 1, 7, 2, 120, 3, 2, 5, 9, 12, 2, 3, 1, 7, 2, 120] @ replicate 10 0)
       (Some (TraceBufferChunk 8 3 1 [1, 0, 9, 0, 0, 0, 0, 0] None))"

definition partly_written :: "Variant outside" where
  "partly_written = \<lparr>written_node_cache = {5, 77}, sink = [], released = 0\<rparr>"

section \<open>The coder after the specification meets the expectations\<close>

declare varint_bytes.simps [simp del]

lemma unat_continuation_byte:
  "unat ((of_nat (n mod 128) :: byte) + 128) = n mod 128 + 128"
proof -
  have "(of_nat (n mod 128) :: byte) + 128 = of_nat (n mod 128 + 128)"
    by simp
  then have "unat ((of_nat (n mod 128) :: byte) + 128) = (n mod 128 + 128) mod 2 ^ LENGTH(8)"
    by (simp only: unat_of_nat)
  also have "\<dots> = n mod 128 + 128" by simp
  finally show ?thesis .
qed

lemma varint_value_bytes:
  "varint_value (varint_bytes n @ rest) = Some (n, length (varint_bytes n))"
proof (induction n rule: varint_bytes.induct)
  case (1 n)
  show ?case
  proof (cases "n < 128")
    case True
    then show ?thesis
      by (simp add: varint_bytes.simps [of n] unat_of_nat)
  next
    case False
    with 1 have "varint_value (varint_bytes (n div 128) @ rest)
        = Some (n div 128, length (varint_bytes (n div 128)))"
      by simp
    with False show ?thesis
      by (simp add: varint_bytes.simps [of n] unat_continuation_byte)
  qed
qed

lemma length_varint_bytes:
  "n < 128 ^ k \<Longrightarrow> 0 < k \<Longrightarrow> length (varint_bytes n) \<le> k"
proof (induction k arbitrary: n)
  case 0
  then show ?case by simp
next
  case (Suc k)
  show ?case
  proof (cases "n < 128")
    case True
    then show ?thesis by (simp add: varint_bytes.simps [of n])
  next
    case False
    with Suc.prems have k: "0 < k" by (cases k) auto
    from Suc.prems have "n div 128 < 128 ^ k"
      by (simp add: less_mult_imp_div_less mult.commute)
    with Suc.IH k have "length (varint_bytes (n div 128)) \<le> k" by blast
    with False show ?thesis by (simp add: varint_bytes.simps [of n])
  qed
qed

lemma length_encode_varint: "length (encode_varint v) \<le> 10"
proof -
  have "unat v < 2 ^ 64" using unsigned_less [of v, where ?'a = nat] by simp
  then have "unat v < 128 ^ 10" by simp
  then show ?thesis unfolding encode_varint_def by (rule length_varint_bytes) simp
qed

lemma decode_encode_varint:
  "decode_varint (encode_varint v @ rest) = Some (v, length (encode_varint v))"
  by (simp add: decode_varint_def encode_varint_def varint_value_bytes)

lemma decode_encode_tagged_value:
  "decode_tagged_value (encode_tagged_value x @ rest) = Some (x, length (encode_tagged_value x))"
  by (cases x) (simp add: decode_encode_varint)

lemma length_encode_tagged_value: "length (encode_tagged_value x) \<le> 22"
  using length_encode_varint [of "payload x"] by (cases x) simp

lemma spec_coder_roundtrip: "coder_roundtrip spec_coder"
  by (simp add: coder_roundtrip_def spec_coder_def decode_encode_varint decode_encode_tagged_value)

lemma spec_coder_bounded: "coder_bounded spec_coder"
  by (simp add: coder_bounded_def spec_coder_def length_encode_varint length_encode_tagged_value)

section \<open>Saving appends the encoding of the snapshot\<close>

lemma put_fields:
  assumes "put bs c = Some c'"
  shows "m_pos c' = m_pos c + length bs" "m_size c' = m_size c" "m_nrec c' = m_nrec c"
    "m_next c' = m_next c" "length (m_data c') = length (m_data c)"
    "m_data c' = take (m_pos c) (m_data c) @ bs @ drop (m_pos c + length bs) (m_data c)"
  using assms by (auto simp: put_def split: if_splits)

lemma put_put:
  "Option.bind (put a c) (put b) = put (a @ b) c"
  by (auto simp: put_def ac_simps)

lemma put_put_bind:
  "Option.bind (put a c) (\<lambda>c'. Option.bind (put b c') f) = Option.bind (put (a @ b) c) f"
  using put_put [of a c b] by (cases "put a c") (auto simp: put_def split: if_splits)

lemma put_each_eq:
  "m_pos c \<le> length (m_data c) \<Longrightarrow> put_each enc xs c = put (concat (map enc xs)) c"
proof (induction xs arbitrary: c)
  case Nil
  then show ?case by (cases c) (simp add: put_def)
next
  case (Cons x xs)
  show ?case
  proof (cases "put (enc x) c")
    case None
    then show ?thesis by (auto simp: put_def split: if_splits)
  next
    case (Some c')
    then have "m_pos c' \<le> length (m_data c')" by (auto simp: put_def split: if_splits)
    with Cons.IH have "put_each enc xs c' = put (concat (map enc xs)) c'" by blast
    with Some show ?thesis using put_put [where a="enc x" and c=c and b="concat (map enc xs)"] by simp
  qed
qed

lemma put_each_bind:
  assumes "m_pos c \<le> length (m_data c)"
  shows "Option.bind (put a c) (\<lambda>c'. Option.bind (put_each enc xs c') f)
       = Option.bind (put (a @ concat (map enc xs)) c) f"
proof (cases "put a c")
  case None
  then show ?thesis by (auto simp: put_def split: if_splits)
next
  case (Some c')
  then have "m_pos c' \<le> length (m_data c')" by (auto simp: put_def split: if_splits)
  then have "put_each enc xs c' = put (concat (map enc xs)) c'" by (rule put_each_eq)
  then show ?thesis using put_put_bind [of a c "concat (map enc xs)" f] Some by simp
qed

lemma save_snapshot_put:
  assumes "m_pos c \<le> length (m_data c)" and "(n_nodes s + n_immediate s) mod SIZE_T_RANGE \<noteq> 0"
  shows "save_snapshot cd s c = map_option incr_nrec (put (encode_record cd s) c)"
proof -
  have "save_snapshot cd s c = Option.bind (put (encode_record cd s) c) (\<lambda>c5. Some (incr_nrec c5))"
    using assms
    by (simp add: save_snapshot_def encode_record_def Let_def put_put_bind put_each_bind)
  then show ?thesis by (cases "put (encode_record cd s) c") simp_all
qed

section \<open>Decoding what was saved\<close>

lemma decode_each_concat:
  assumes "\<And>x rest. dec (enc x @ rest) = Some (f x, length (enc x))"
  shows "decode_each dec (length xs) (pre @ concat (map enc xs) @ post) (length pre)
       = Some (map f xs, length pre + length (concat (map enc xs)))"
proof (induction xs arbitrary: pre)
  case Nil
  show ?case by simp
next
  case (Cons x xs)
  have "decode_each dec (length xs) ((pre @ enc x) @ concat (map enc xs) @ post) (length (pre @ enc x))
      = Some (map f xs, length (pre @ enc x) + length (concat (map enc xs)))"
    by (rule Cons.IH)
  then show ?case by (simp add: assms)
qed

lemma decode_count_small: "n \<le> SNAP_MAX \<Longrightarrow> decode_count (of_nat n) = int n"
proof -
  assume n: "n \<le> SNAP_MAX"
  then have n64: "n < 2 ^ 64" and n31: "int n < 2 ^ 31"
    by (simp_all add: SNAP_MAX_def)
  have "(ucast (of_nat n :: u64) :: 32 word) = of_nat (take_bit 64 n)"
    by (simp add: unsigned_of_nat)
  also have "take_bit 64 n = n"
    using n64 by (simp add: take_bit_nat_eq_self)
  finally have u: "(ucast (of_nat n :: u64) :: 32 word) = of_nat n" .
  have "sint (of_nat n :: 32 word) = signed_take_bit 31 (int n)"
    by (simp add: signed_of_nat)
  also have "\<dots> = int n"
    using n31 by (simp add: signed_take_bit_int_eq_self)
  finally have "sint (of_nat n :: 32 word) = int n" .
  with u n show ?thesis by (simp add: decode_count_def)
qed

lemma flush_record_encode:
  assumes rt: "coder_roundtrip cd" and par: "parallel_immediates s"
  shows "flush_record cd c (pre @ encode_record cd s @ post) (length pre) out
       = Some (length pre + length (encode_record cd s), emit_record cd c s out)"
proof -
  define nn where "nn = min (n_nodes s) SNAP_MAX"
  define ni where "ni = min (n_immediate s) SNAP_MAX"
  define nodes where "nodes = take nn (node_entries s)"
  define attrs where "attrs = take ni (immediate_attr s)"
  define vals where "vals = take ni (immediate_data s)"
  define e1 where "e1 = vlenc_u64 cd (of_nat nn)"
  define e2 where "e2 = vlenc_u64 cd (of_nat ni)"
  define e3 where "e3 = concat (map (\<lambda>n. vlenc_u64 cd (id_Node n)) nodes)"
  define e4 where "e4 = concat (map (vlenc_u64 cd) attrs)"
  define e5 where "e5 = concat (map (pack cd) vals)"
  define dat where "dat = pre @ encode_record cd s @ post"
  have enc: "encode_record cd s = e1 @ e2 @ e3 @ e4 @ e5"
    by (simp add: encode_record_def Let_def nn_def ni_def nodes_def attrs_def vals_def
        e1_def e2_def e3_def e4_def e5_def)
  have len: "length nodes = nn" "length attrs = ni" "length vals = ni"
    using par
    by (simp_all add: nodes_def attrs_def vals_def nn_def ni_def n_nodes_def n_immediate_def
        parallel_immediates_def)
  have dv: "\<And>v rest. vldec_u64 cd (vlenc_u64 cd v @ rest) = Some (v, length (vlenc_u64 cd v))"
    and dp: "\<And>x rest. unpack cd (pack cd x @ rest) = Some (x, length (pack cd x))"
    using rt by (simp_all add: coder_roundtrip_def)
  have c1: "decode_count (of_nat nn) = int nn" and c2: "decode_count (of_nat ni) = int ni"
    by (simp_all add: decode_count_small nn_def ni_def)
  have d1: "vldec_u64 cd (drop (length pre) dat) = Some (of_nat nn, length e1)"
    by (simp add: dat_def enc e1_def dv)
  have d2: "vldec_u64 cd (drop (length pre + length e1) dat) = Some (of_nat ni, length e2)"
    by (simp add: dat_def enc e2_def dv add.assoc)
  have d3: "decode_each (vldec_u64 cd) nn dat (length pre + length e1 + length e2)
      = Some (map id_Node nodes, length pre + length e1 + length e2 + length e3)"
    using decode_each_concat [where dec = "vldec_u64 cd" and enc = "\<lambda>n. vlenc_u64 cd (id_Node n)"
        and f = id_Node and xs = nodes and pre = "pre @ e1 @ e2" and post = "e4 @ e5 @ post"]
    by (simp add: dat_def dv enc len e3_def add.assoc)
  have d4: "decode_each (vldec_u64 cd) ni dat (length pre + length e1 + length e2 + length e3)
      = Some (attrs, length pre + length e1 + length e2 + length e3 + length e4)"
    using decode_each_concat [where dec = "vldec_u64 cd" and enc = "vlenc_u64 cd"
        and f = "\<lambda>x. x" and xs = attrs and pre = "pre @ e1 @ e2 @ e3" and post = "e5 @ post"]
    by (simp add: dat_def dv enc len e4_def add.assoc)
  have d5: "decode_each (unpack cd) ni dat (length pre + length e1 + length e2 + length e3 + length e4)
      = Some (vals, length pre + length e1 + length e2 + length e3 + length e4 + length e5)"
    using decode_each_concat [where dec = "unpack cd" and enc = "pack cd"
        and f = "\<lambda>x. x" and xs = vals and pre = "pre @ e1 @ e2 @ e3 @ e4" and post = post]
    by (simp add: dat_def dp enc len e5_def add.assoc)
  have em: "emit_record cd c s out =
     (let node_vec = map (Variant_of_id cd) (map id_Node nodes);
          attr_vec = map (Variant_of_id cd) attrs;
          out1 = write_nodes cd c node_vec out;
          out2 = write_nodes cd c attr_vec out1
      in out2\<lparr>sink := sink out2 @ [WriteRecord (int nn) (int ni) (int ni) node_vec attr_vec vals]\<rparr>)"
    by (simp add: emit_record_def Let_def nn_def ni_def nodes_def attrs_def vals_def comp_def)
  have tot: "length pre + length e1 + length e2 + length e3 + length e4 + length e5
      = length pre + length (encode_record cd s)"
    by (simp add: enc)
  have "flush_record cd c dat (length pre) out
      = Some (length pre + length (encode_record cd s), emit_record cd c s out)"
    by (simp add: flush_record_def d1 d2 c1 c2 d3 d4 d5 em Let_def tot)
  then show ?thesis by (simp add: dat_def)
qed

section \<open>Flushing a chain that holds records\<close>

lemma emit_records_simps:
  "emit_records cd c [] out = out"
  "emit_records cd c (s # ss) out = emit_records cd c ss (emit_record cd c s out)"
  "emit_records cd c (ss @ ts) out = emit_records cd c ts (emit_records cd c ss out)"
  by (simp_all add: emit_records_def)

lemma flush_records_encode:
  assumes "coder_roundtrip cd" and "list_all parallel_immediates ss"
  shows "flush_records cd c (pre @ concat (map (encode_record cd) ss) @ post) (length ss) (length pre) out
       = Some (emit_records cd c ss out)"
  using assms(2)
proof (induction ss arbitrary: pre out)
  case Nil
  show ?case by (simp add: emit_records_simps)
next
  case (Cons s ss)
  from Cons.prems have par: "parallel_immediates s" and rest: "list_all parallel_immediates ss"
    by simp_all
  have step: "flush_record cd c (pre @ encode_record cd s @ (concat (map (encode_record cd) ss) @ post))
        (length pre) out
      = Some (length pre + length (encode_record cd s), emit_record cd c s out)"
    using assms(1) par by (rule flush_record_encode)
  have "flush_records cd c ((pre @ encode_record cd s) @ concat (map (encode_record cd) ss) @ post)
        (length ss) (length (pre @ encode_record cd s)) (emit_record cd c s out)
      = Some (emit_records cd c ss (emit_record cd c s out))"
    using rest by (rule Cons.IH)
  with step show ?case by (simp add: emit_records_simps)
qed

lemma write_nodes_released [simp]: "released (write_nodes cd c xs out) = released out"
  by (induction xs arbitrary: out) (auto simp: Let_def split: option.splits)

lemma emit_record_released [simp]: "released (emit_record cd c s out) = released out"
  by (simp add: emit_record_def Let_def)

lemma emit_records_released [simp]: "released (emit_records cd c ss out) = released out"
  by (induction ss arbitrary: out) (simp_all add: emit_records_simps)

lemma flush_chain:
  assumes "coder_roundtrip cd" and "chain_holds cd ch sss"
  shows "flush cd c ch out
       = Some (length (concat sss),
               TraceBufferChunk (m_size ch) 0 0 (replicate (m_size ch) 0) None,
               (emit_records cd c (concat sss) out)\<lparr>released := released out + (length sss - 1)\<rparr>)"
  using assms(2)
proof (induction sss arbitrary: ch out)
  case Nil
  then show ?case by (cases ch) simp
next
  case (Cons ss rest)
  obtain sz pos nrec dat nxt where ch: "ch = TraceBufferChunk sz pos nrec dat nxt"
    by (cases ch)
  from Cons.prems [unfolded ch chain_holds.simps] have h: "sz = length dat" "nrec = length ss"
      "pos = length (concat (map (encode_record cd) ss))"
      "take pos dat = concat (map (encode_record cd) ss)"
      "list_all parallel_immediates ss"
      "case nxt of None \<Rightarrow> rest = [] | Some nx \<Rightarrow> chain_holds cd nx rest"
    by blast+
  have "dat = [] @ concat (map (encode_record cd) ss) @ drop pos dat"
    using h(4) append_take_drop_id [of pos dat] by simp
  then have "flush_records cd c dat nrec 0 out
      = flush_records cd c ([] @ concat (map (encode_record cd) ss) @ drop pos dat) (length ss) (length ([] :: byte list)) out"
    using h(2) by simp
  also have "\<dots> = Some (emit_records cd c ss out)"
    using assms(1) h(5) by (rule flush_records_encode)
  finally have local: "flush_records cd c dat nrec 0 out = Some (emit_records cd c ss out)" .
  show ?case
  proof (cases nxt)
    case None
    with h(6) have "rest = []" by simp
    with None local ch h(2) show ?thesis
      by (simp add: reset_def emit_records_simps)
  next
    case (Some nx)
    with h(6) have nx: "chain_holds cd nx rest" by simp
    then have ne: "rest \<noteq> []" by (cases nx) auto
    have "flush cd c nx (emit_records cd c ss out)
        = Some (length (concat rest),
               TraceBufferChunk (m_size nx) 0 0 (replicate (m_size nx) 0) None,
               (emit_records cd c (concat rest) (emit_records cd c ss out))
                 \<lparr>released := released (emit_records cd c ss out) + (length rest - 1)\<rparr>)"
      using nx by (rule Cons.IH)
    with Some local ch h(2) ne show ?thesis
      by (cases rest) (simp_all add: reset_def clear_next_def emit_records_simps)
  qed
qed

section \<open>The node cache and the path emissions\<close>

lemma fresh_ids_append:
  "fresh_ids C (xs @ ys) = fresh_ids C xs @ fresh_ids (C \<union> set xs) ys"
  by (induction xs arbitrary: C) (auto simp: insert_absorb)

lemma set_fresh_ids: "set (fresh_ids C xs) = set xs - C"
  by (induction xs arbitrary: C) auto

lemma distinct_fresh_ids: "distinct (fresh_ids C xs)"
  by (induction xs arbitrary: C) (auto simp: set_fresh_ids)

lemma path_events_simps:
  "path_events c [] = []"
  "path_events c (j # js) = (case node c j of None \<Rightarrow> [] | Some n \<Rightarrow> [WritePath n]) @ path_events c js"
  "path_events c (js @ ks) = path_events c js @ path_events c ks"
  by (simp_all add: path_events_def)

lemma write_nodes_eq:
  "write_nodes cd c xs out
     = out\<lparr>written_node_cache := written_node_cache out \<union> set (map (to_id cd) xs),
           sink := sink out @ path_events c (fresh_ids (written_node_cache out) (map (to_id cd) xs))\<rparr>"
proof (induction xs arbitrary: out)
  case Nil
  show ?case by (simp add: path_events_simps)
next
  case (Cons x xs)
  show ?case
  proof (cases "to_id cd x \<in> written_node_cache out")
    case True
    then show ?thesis
      by (simp add: Cons.IH insert_absorb)
  next
    case False
    then show ?thesis
      by (cases "node c (to_id cd x)") (simp_all add: Cons.IH Let_def path_events_simps)
  qed
qed

lemma emit_record_eq:
  assumes "coder_roundtrip cd"
  shows "emit_record cd c s out
     = out\<lparr>written_node_cache := written_node_cache out \<union> set (record_ids s),
           sink := sink out @ path_events c (fresh_ids (written_node_cache out) (record_ids s))
                   @ [record_event cd s]\<rparr>"
proof -
  have id: "\<And>i. to_id cd (Variant_of_id cd i) = i"
    using assms by (simp add: coder_roundtrip_def)
  have m: "min (n_nodes s) SNAP_MAX = min (length (node_entries s)) SNAP_MAX"
      "min (n_immediate s) SNAP_MAX = min (length (immediate_attr s)) SNAP_MAX"
    by (simp_all add: n_nodes_def n_immediate_def)
  have t: "\<And>xs :: Node list. take (min (length xs) SNAP_MAX) xs = take SNAP_MAX xs"
     "\<And>xs :: cali_id_t list. take (min (length xs) SNAP_MAX) xs = take SNAP_MAX xs"
    by (simp_all add: min_def)
  show ?thesis
    by (simp add: emit_record_def Let_def write_nodes_eq id comp_def record_ids_def record_event_def
           fresh_ids_append path_events_simps m t Un_assoc image_image)
qed

section \<open>The flush of a chain, in terms of its records\<close>

lemma emit_records_eq:
  assumes "coder_roundtrip cd"
  shows "emit_records cd c ss out
     = out\<lparr>written_node_cache := written_node_cache out \<union> set (concat (map record_ids ss)),
           sink := sink out @ new_events cd c (written_node_cache out) ss\<rparr>"
proof (induction ss arbitrary: out)
  case Nil
  show ?case by (simp add: emit_records_simps)
next
  case (Cons s ss)
  show ?case
    by (simp add: emit_records_simps Cons.IH emit_record_eq [OF assms] Un_assoc)
qed

lemma chain_holds_counts:
  "chain_holds cd ch sss \<Longrightarrow> total_records ch = length (concat sss) \<and> destroy ch = length sss"
proof (induction sss arbitrary: ch)
  case Nil
  then show ?case by (cases ch) simp
next
  case (Cons ss rest)
  obtain sz pos nrec dat nxt where ch: "ch = TraceBufferChunk sz pos nrec dat nxt"
    by (cases ch)
  from Cons.prems [unfolded ch chain_holds.simps] have n: "nrec = length ss"
    and nx: "case nxt of None \<Rightarrow> rest = [] | Some nx \<Rightarrow> chain_holds cd nx rest"
    by blast+
  show ?case
  proof (cases nxt)
    case None
    with nx n ch show ?thesis by (simp add: total_records_def)
  next
    case (Some c')
    with nx have "chain_holds cd c' rest" by simp
    then have "total_records c' = length (concat rest) \<and> destroy c' = length rest"
      by (rule Cons.IH)
    with Some n ch show ?thesis by (simp add: total_records_def)
  qed
qed

lemma flush_chain_events:
  assumes "coder_roundtrip cd" and "chain_holds cd ch sss"
  shows "flush cd c ch out
       = Some (total_records ch,
               TraceBufferChunk (m_size ch) 0 0 (replicate (m_size ch) 0) None,
               \<lparr>written_node_cache = written_node_cache out \<union> set (concat (map record_ids (concat sss))),
                sink = sink out @ new_events cd c (written_node_cache out) (concat sss),
                released = released out + (destroy ch - 1)\<rparr>)"
  using flush_chain [OF assms, of c out] chain_holds_counts [OF assms(2)]
  by (cases out) (simp add: emit_records_eq [OF assms(1)])

lemma node_Some_id: "node c i = Some n \<Longrightarrow> id_Node n = i"
  by (auto simp: node_def find_Some_iff)

lemma chain_holds_Nil [simp]: "\<not> chain_holds cd c []"
  by (cases c) simp

lemma chain_holds_empty:
  "chain_holds cd c [[]] \<longleftrightarrow> m_size c = length (m_data c) \<and> m_nrec c = 0 \<and> m_pos c = 0 \<and> m_next c = None"
  by (cases c) (auto split: option.splits)

lemma save_snapshot_holds:
  assumes h: "chain_holds cd c (ss # rest)" and par: "parallel_immediates s"
    and ne: "(n_nodes s + n_immediate s) mod SIZE_T_RANGE \<noteq> 0"
    and sv: "save_snapshot cd s c = Some c'"
  shows "chain_holds cd c' ((ss @ [s]) # rest)"
proof -
  obtain sz pos nrec dat nxt where c: "c = TraceBufferChunk sz pos nrec dat nxt"
    by (cases c)
  from h [unfolded c chain_holds.simps] have f: "sz = length dat" "nrec = length ss"
      "pos = length (concat (map (encode_record cd) ss))"
      "take pos dat = concat (map (encode_record cd) ss)"
      "list_all parallel_immediates ss"
      "case nxt of None \<Rightarrow> rest = [] | Some nx \<Rightarrow> chain_holds cd nx rest"
    by blast+
  have le: "m_pos c \<le> length (m_data c)"
  proof -
    have "length (take pos dat) = pos" using f(3,4) by simp
    then show ?thesis using c by simp
  qed
  from sv save_snapshot_put [OF le ne, of cd]
  obtain c1 where p: "put (encode_record cd s) c = Some c1" and c': "c' = incr_nrec c1"
    by (cases "put (encode_record cd s) c") auto
  let ?e = "encode_record cd s"
  from p c have fit: "pos + length ?e \<le> length dat"
    by (simp add: put_def split: if_splits)
  from p c have c1: "c1 = TraceBufferChunk sz (pos + length ?e) nrec
      (take pos dat @ ?e @ drop (pos + length ?e) dat) nxt"
    by (simp add: put_def split: if_splits)
  have tk: "take (pos + length ?e) (take pos dat @ ?e @ drop (pos + length ?e) dat) = take pos dat @ ?e"
    using fit by simp
  show ?thesis
    unfolding c' c1 incr_nrec_def
    using f fit par tk by simp
qed

section \<open>The size of an encoded record\<close>

lemma length_concat_le:
  assumes "\<And>x. length (enc x) \<le> k"
  shows "length (concat (map enc xs)) \<le> k * length xs"
  using assms by (induction xs) (auto intro: add_mono)

lemma length_encode_record:
  assumes "coder_bounded cd"
  shows "length (encode_record cd s)
      \<le> 20 + 10 * min (n_nodes s) SNAP_MAX + 32 * min (n_immediate s) SNAP_MAX"
proof -
  define nn where "nn = min (n_nodes s) SNAP_MAX"
  define ni where "ni = min (n_immediate s) SNAP_MAX"
  have v: "\<And>v. length (vlenc_u64 cd v) \<le> 10" and p: "\<And>x. length (pack cd x) \<le> 22"
    using assms by (simp_all add: coder_bounded_def)
  have a: "length (vlenc_u64 cd (of_nat nn)) \<le> 10" "length (vlenc_u64 cd (of_nat ni)) \<le> 10"
    by (rule v)+
  have b: "length (concat (map (\<lambda>n. vlenc_u64 cd (id_Node n)) (take nn (node_entries s)))) \<le> 10 * nn"
    using length_concat_le [where enc = "\<lambda>n. vlenc_u64 cd (id_Node n)" and k = 10
        and xs = "take nn (node_entries s)"] v
    by (simp add: nn_def n_nodes_def)
  have c: "length (concat (map (vlenc_u64 cd) (take ni (immediate_attr s)))) \<le> 10 * ni"
    using length_concat_le [where enc = "vlenc_u64 cd" and k = 10
        and xs = "take ni (immediate_attr s)"] v
    by (simp add: ni_def n_immediate_def)
  have "length (concat (map (pack cd) (take ni (immediate_data s)))) \<le> 22 * length (take ni (immediate_data s))"
    using length_concat_le [where enc = "pack cd" and k = 22
        and xs = "take ni (immediate_data s)"] p by blast
  also have "\<dots> \<le> 22 * ni" by simp
  finally have d: "length (concat (map (pack cd) (take ni (immediate_data s)))) \<le> 22 * ni" .
  have "length (encode_record cd s)
      = length (vlenc_u64 cd (of_nat nn)) + length (vlenc_u64 cd (of_nat ni))
        + length (concat (map (\<lambda>n. vlenc_u64 cd (id_Node n)) (take nn (node_entries s))))
        + length (concat (map (vlenc_u64 cd) (take ni (immediate_attr s))))
        + length (concat (map (pack cd) (take ni (immediate_data s))))"
    by (simp add: encode_record_def Let_def nn_def ni_def)
  with a b c d show ?thesis unfolding nn_def ni_def by linarith
qed

section \<open>The cache only grows\<close>

lemma write_nodes_cache_mono:
  "written_node_cache out \<subseteq> written_node_cache (write_nodes cd c xs out)"
  by (simp add: write_nodes_eq)

lemma flush_record_cache_mono:
  assumes "flush_record cd c dat p out = Some (p', out')"
  shows "written_node_cache out \<subseteq> written_node_cache out'"
  using assms
  by (auto simp: flush_record_def Let_def write_nodes_eq split: Option.bind_splits)

lemma flush_records_cache_mono:
  "flush_records cd c dat r p out = Some out' \<Longrightarrow> written_node_cache out \<subseteq> written_node_cache out'"
proof (induction r arbitrary: p out)
  case 0
  then show ?case by simp
next
  case (Suc r)
  then obtain p1 out1 where s: "flush_record cd c dat p out = Some (p1, out1)"
      and r: "flush_records cd c dat r p1 out1 = Some out'"
    by (auto split: option.splits)
  from s have "written_node_cache out \<subseteq> written_node_cache out1"
    by (rule flush_record_cache_mono)
  moreover from r have "written_node_cache out1 \<subseteq> written_node_cache out'"
    by (rule Suc.IH)
  ultimately show ?case by blast
qed

section \<open>Counting the emissions of a flush\<close>

lemma filter_path_events_record [simp]: "filter is_WriteRecord (path_events c js) = []"
  by (induction js) (auto simp: path_events_simps split: option.splits)

lemma is_WriteRecord_record_event [simp]: "is_WriteRecord (record_event cd s)"
  by (simp add: record_event_def)

lemma n_record_emissions_new_events:
  "n_record_emissions (new_events cd c C ss) = length ss"
  by (induction ss arbitrary: C) (simp_all add: n_record_emissions_def)

lemma n_path_emissions_append:
  "n_path_emissions n (es @ fs) = n_path_emissions n es + n_path_emissions n fs"
  by (simp add: n_path_emissions_def)

lemma n_path_emissions_new_events:
  "n_path_emissions n (new_events (cd :: 'v coder) c C ss)
     = n_path_emissions n (path_events c (fresh_ids C (concat (map record_ids ss))) :: 'v event list)"
proof (induction ss arbitrary: C)
  case Nil
  show ?case by (simp add: path_events_simps)
next
  case (Cons s ss)
  have r: "n_path_emissions n (record_event cd s # es) = n_path_emissions n es" for es
    by (simp add: n_path_emissions_def record_event_def)
  show ?case
    using Cons.IH [of "C \<union> set (record_ids s)"]
    by (simp add: fresh_ids_append path_events_simps n_path_emissions_append r)
qed

lemma n_path_emissions_path_events:
  "n_path_emissions n (path_events c js) = length (filter (\<lambda>j. node c j = Some n) js)"
  by (induction js) (auto simp: path_events_simps n_path_emissions_def split: option.splits)

lemma length_filter_distinct:
  "distinct js \<Longrightarrow> length (filter (\<lambda>j. j = i) js) = (if i \<in> set js then 1 else 0)"
  by (induction js) auto

lemma n_path_emissions_resolved:
  assumes "node c i = Some n"
  shows "n_path_emissions n (path_events c (fresh_ids C js)) = (if i \<in> set js - C then 1 else 0)"
proof -
  have "node c j = Some n \<longleftrightarrow> j = i" for j
    using assms node_Some_id [of c j n] node_Some_id [of c i n] by auto
  then have "(\<lambda>j. node c j = Some n) = (\<lambda>j. j = i)"
    by (simp add: fun_eq_iff)
  then show ?thesis
    by (simp add: n_path_emissions_path_events length_filter_distinct distinct_fresh_ids
        set_fresh_ids)
qed

lemma n_path_emissions_unresolved:
  assumes "node c (id_Node n) = None"
  shows "n_path_emissions n (path_events c js) = 0"
proof -
  have "\<And>j. node c j \<noteq> Some n"
    using assms node_Some_id by fastforce
  then show ?thesis by (simp add: n_path_emissions_path_events)
qed

section \<open>Saving into an empty chunk and flushing it\<close>

lemma encode_record_clamped: "encode_record cd (clamped s) = encode_record cd s"
  by (simp add: encode_record_def clamped_def n_nodes_def n_immediate_def Let_def min_def)

lemma flush_saved_snapshot:
  assumes rt: "coder_roundtrip cd" and par: "parallel_immediates s"
    and ne: "(n_nodes s + n_immediate s) mod SIZE_T_RANGE \<noteq> 0"
    and c: "m_size c = length (m_data c)" "m_pos c = 0" "m_nrec c = 0" "m_next c = None"
    and sv: "save_snapshot cd s c = Some c'"
  shows "flush cd ca c' out
       = Some (1, reset c,
           out\<lparr>written_node_cache := written_node_cache out \<union> set (record_ids s),
               sink := sink out @ path_events ca (fresh_ids (written_node_cache out) (record_ids s))
                 @ [record_event cd s]\<rparr>)"
proof -
  have "chain_holds cd c [[]]" using c by (simp add: chain_holds_empty)
  then have h: "chain_holds cd c' [[] @ [s]]"
    using par ne sv by (rule save_snapshot_holds)
  have sz: "m_size c' = m_size c"
    using sv save_snapshot_put [of c s cd] ne c
    by (auto simp: put_def incr_nrec_def split: if_splits)
  have "destroy c' = 1" "total_records c' = 1"
    using chain_holds_counts [OF h] by simp_all
  then show ?thesis
    using flush_chain_events [OF rt h, of ca out] sz c
    by (cases out) (simp add: reset_def)
qed

section \<open>The admission test and the empty snapshot\<close>

text \<open>
  C3, as amended. \<open>fits\<close> computes its estimate from the two counts of the snapshot
  alone (it takes no coder and reads no entry), and the counts enter unclamped:
  whenever the sum does not leave the range of \<^verbatim>\<open>size_t\<close>, \<open>fits\<close> holds exactly
  when \<open>m_pos + (20 + 10 * n_nodes + 32 * n_immediate) < m_size\<close>.
\<close>

theorem fits_unclamped_estimate:
  assumes "m_pos c + (20 + 10 * n_nodes s + 32 * n_immediate s) < SIZE_T_RANGE"
  shows "fits c s \<longleftrightarrow> m_pos c + (20 + 10 * n_nodes s + 32 * n_immediate s) < m_size c"
  using assms by (simp add: fits_def SIZE_T_RANGE_def Let_def)

theorem fits_unclamped_estimate_witness:
  "m_pos (new_chunk 1024)
     + (20 + 10 * n_nodes \<lparr>node_entries = [Node 5 None, Node 9 None, Node 12 None],
                            immediate_attr = [2, 3],
                            immediate_data = [Variant 1 7, Variant 2 120]\<rparr>
           + 32 * n_immediate \<lparr>node_entries = [Node 5 None, Node 9 None, Node 12 None],
                                immediate_attr = [2, 3],
                                immediate_data = [Variant 1 7, Variant 2 120]\<rparr>)
     < SIZE_T_RANGE
   \<and> fits (new_chunk 1024)
         \<lparr>node_entries = [Node 5 None, Node 9 None, Node 12 None],
          immediate_attr = [2, 3],
          immediate_data = [Variant 1 7, Variant 2 120]\<rparr>"
  using fits_unclamped_estimate [of "new_chunk 1024"
      "\<lparr>node_entries = [Node 5 None, Node 9 None, Node 12 None],
        immediate_attr = [2, 3],
        immediate_data = [Variant 1 7, Variant 2 120]\<rparr>"]
  by (simp add: new_chunk_def n_nodes_def n_immediate_def SIZE_T_RANGE_def)

text \<open>
  C3, as stated, fails: with 81 node entries in an empty chunk of 825 bytes the
  clamped formula of the specification admits the snapshot (820 < 825) and \<open>fits\<close>
  rejects it (830 is not below 825).
\<close>

theorem fits_clamped_estimate_counterexample:
  "fits (new_chunk 825)
      \<lparr>node_entries = replicate 81 (Node 1 None), immediate_attr = [],
       immediate_data = ([] :: Variant list)\<rparr>
   \<noteq> fits_spec (new_chunk 825)
      \<lparr>node_entries = replicate 81 (Node 1 None), immediate_attr = [],
       immediate_data = ([] :: Variant list)\<rparr>"
  by (simp add: fits_def fits_spec_def new_chunk_def n_nodes_def n_immediate_def
      SNAP_MAX_def SIZE_T_RANGE_def)

text \<open>
  C8. A snapshot with no node entry and no immediate entry leaves the chunk as it is:
  \<open>save_snapshot\<close> returns the very chunk it was given, so position, record count,
  buffer and successor are the old ones.
\<close>

theorem save_snapshot_empty_noop:
  "n_nodes s = 0 \<Longrightarrow> n_immediate s = 0 \<Longrightarrow> save_snapshot cd s c = Some c"
  by (simp add: save_snapshot_def)

theorem save_snapshot_empty_noop_witness:
  "n_nodes \<lparr>node_entries = [], immediate_attr = [], immediate_data = ([] :: Variant list)\<rparr> = 0
   \<and> n_immediate \<lparr>node_entries = [], immediate_attr = [], immediate_data = ([] :: Variant list)\<rparr> = 0
   \<and> save_snapshot spec_coder
         \<lparr>node_entries = [], immediate_attr = [], immediate_data = []\<rparr>
         (TraceBufferChunk 8 3 1 [1, 0, 7, 0, 0, 0, 0, 0] None)
       = Some (TraceBufferChunk 8 3 1 [1, 0, 7, 0, 0, 0, 0, 0] None)"
  using save_snapshot_empty_noop [of
      "\<lparr>node_entries = [], immediate_attr = [], immediate_data = ([] :: Variant list)\<rparr>"
      spec_coder "TraceBufferChunk 8 3 1 [1, 0, 7, 0, 0, 0, 0, 0] None"]
  by (simp add: n_nodes_def n_immediate_def)

text \<open>
  C10. For the empty snapshot \<open>fits\<close> still asks for 20 free bytes: it holds exactly
  when \<open>m_pos + 20 < m_size\<close> (the sum staying in the range of \<^verbatim>\<open>size_t\<close>), although
  \<open>save_snapshot\<close> of that snapshot returns the chunk unchanged. So where
  \<open>m_size \<le> m_pos + 20\<close>, \<open>fits\<close> is false and saving changes nothing.
\<close>

theorem fits_empty_snapshot_needs_20:
  assumes "n_nodes s = 0" and "n_immediate s = 0" and "m_pos c + 20 < SIZE_T_RANGE"
  shows "(fits c s \<longleftrightarrow> m_pos c + 20 < m_size c) \<and> save_snapshot cd s c = Some c"
  using assms by (simp add: fits_def save_snapshot_def SIZE_T_RANGE_def)

theorem fits_empty_snapshot_needs_20_witness:
  "n_nodes \<lparr>node_entries = [], immediate_attr = [], immediate_data = ([] :: Variant list)\<rparr> = 0
   \<and> n_immediate \<lparr>node_entries = [], immediate_attr = [], immediate_data = ([] :: Variant list)\<rparr> = 0
   \<and> m_pos (TraceBufferChunk 32 12 1 (replicate 32 0) None) + 20 < SIZE_T_RANGE
   \<and> \<not> fits (TraceBufferChunk 32 12 1 (replicate 32 0) None)
         \<lparr>node_entries = [], immediate_attr = [], immediate_data = ([] :: Variant list)\<rparr>
   \<and> save_snapshot spec_coder
         \<lparr>node_entries = [], immediate_attr = [], immediate_data = []\<rparr>
         (TraceBufferChunk 32 12 1 (replicate 32 0) None)
       = Some (TraceBufferChunk 32 12 1 (replicate 32 0) None)"
  using fits_empty_snapshot_needs_20 [of
      "\<lparr>node_entries = [], immediate_attr = [], immediate_data = ([] :: Variant list)\<rparr>"
      "TraceBufferChunk 32 12 1 (replicate 32 0) None" spec_coder]
  by (simp add: n_nodes_def n_immediate_def SIZE_T_RANGE_def)

section \<open>The scenario, evaluated\<close>

lemma scenario_saved:
  "save_snapshot spec_coder scenario_snapshot (new_chunk 32) = Some scenario_chunk"
  by (simp add: save_snapshot_def spec_coder_def new_chunk_def scenario_snapshot_def
      scenario_chunk_def n_nodes_def n_immediate_def SNAP_MAX_def SIZE_T_RANGE_def put_def
      encode_varint_def incr_nrec_def varint_bytes.simps)

lemma encode_scenario:
  "encode_record spec_coder scenario_snapshot = [3, 2, 5, 9, 12, 2, 3, 1, 7, 2, 120]"
  by (simp add: encode_record_def spec_coder_def scenario_snapshot_def n_nodes_def
      n_immediate_def SNAP_MAX_def encode_varint_def varint_bytes.simps)

lemma encode_narrow:
  "encode_record spec_coder narrow_snapshot = [1, 0, 9]"
  by (simp add: encode_record_def spec_coder_def narrow_snapshot_def n_nodes_def
      n_immediate_def SNAP_MAX_def encode_varint_def varint_bytes.simps)

lemma concat_replicate_single: "concat (replicate n [x]) = replicate n x"
  by (induction n) simp_all

lemma encode_wide:
  "encode_record spec_coder wide_snapshot = [80, 1] @ replicate 80 5 @ [2, 1, 7]"
  by (simp add: encode_record_def spec_coder_def wide_snapshot_def n_nodes_def
      n_immediate_def SNAP_MAX_def encode_varint_def varint_bytes.simps concat_replicate_single)

lemma wide_saved:
  "save_snapshot spec_coder wide_snapshot (new_chunk 128) = Some wide_chunk"
proof -
  have "m_pos (new_chunk 128) \<le> length (m_data (new_chunk 128))"
    by (simp add: new_chunk_def)
  moreover have "(n_nodes wide_snapshot + n_immediate wide_snapshot) mod SIZE_T_RANGE \<noteq> 0"
    by (simp add: wide_snapshot_def n_nodes_def n_immediate_def SIZE_T_RANGE_def)
  ultimately have "save_snapshot spec_coder wide_snapshot (new_chunk 128)
      = map_option incr_nrec (put (encode_record spec_coder wide_snapshot) (new_chunk 128))"
    by (rule save_snapshot_put)
  then show ?thesis
    by (simp add: encode_wide put_def new_chunk_def incr_nrec_def wide_chunk_def)
qed

lemma twice_holds: "chain_holds spec_coder twice_chunk [[scenario_snapshot, scenario_snapshot]]"
  by (simp add: twice_chunk_def encode_scenario)
     (simp add: parallel_immediates_def scenario_snapshot_def)

lemma chain_holds_scenario:
  "chain_holds spec_coder scenario_chain [[scenario_snapshot, scenario_snapshot], [narrow_snapshot]]"
  by (simp add: scenario_chain_def encode_scenario encode_narrow)
     (simp add: parallel_immediates_def scenario_snapshot_def narrow_snapshot_def)

lemma scenario_holds: "chain_holds spec_coder scenario_chunk [[scenario_snapshot]]"
  by (simp add: scenario_chunk_def encode_scenario)
     (simp add: parallel_immediates_def scenario_snapshot_def)

lemma scenario_flushed:
  "flush spec_coder scenario_tree scenario_chunk partly_written
     = Some (1, new_chunk 32,
         \<lparr>written_node_cache = {5, 77, 9, 12, 2, 3},
          sink = [WritePath (Node 9 (Some (Node 5 None))), WritePath (Node 2 None),
                  WritePath (Node 3 None),
                  WriteRecord 3 2 2
                    [Variant ID_TAG 5, Variant ID_TAG 9, Variant ID_TAG 12]
                    [Variant ID_TAG 2, Variant ID_TAG 3]
                    [Variant 1 7, Variant 2 120]],
          released = 0\<rparr>)"
proof -
  have t: "total_records scenario_chunk = 1" "destroy scenario_chunk = 1"
      "m_size scenario_chunk = 32"
    by (simp_all add: scenario_chunk_def total_records_def)
  show ?thesis
    using flush_chain_events [OF spec_coder_roundtrip scenario_holds, of scenario_tree partly_written]
    by (simp add: t)
       (auto simp add: partly_written_def new_chunk_def record_ids_def record_event_def
        scenario_snapshot_def scenario_tree_def path_events_def node_def spec_coder_def
        SNAP_MAX_def n_nodes_def n_immediate_def)
qed

section \<open>Admission is sound\<close>

text \<open>
  C2. Let the coder keep to the sizes \<open>fits\<close> counts on, let the chunk's array have
  the capacity's length, and let the estimate stay in the range of \<^verbatim>\<open>size_t\<close>. If
  \<open>fits\<close> holds then \<open>save_snapshot\<close> completes (no write leaves the array) and the
  position afterwards is at most the capacity; capacity and array length are the old ones.
\<close>

theorem fits_save_snapshot_in_bounds:
  assumes bd: "coder_bounded cd" and sz: "m_size c = length (m_data c)"
    and nov: "m_pos c + (20 + 10 * n_nodes s + 32 * n_immediate s) < SIZE_T_RANGE"
    and ft: "fits c s"
  shows "\<exists>c'. save_snapshot cd s c = Some c' \<and> m_pos c' \<le> m_size c'
            \<and> m_size c' = m_size c \<and> length (m_data c') = m_size c'"
proof -
  from ft nov have room: "m_pos c + (20 + 10 * n_nodes s + 32 * n_immediate s) < m_size c"
    by (simp add: fits_def SIZE_T_RANGE_def Let_def)
  show ?thesis
  proof (cases "(n_nodes s + n_immediate s) mod SIZE_T_RANGE = 0")
    case True
    with room sz show ?thesis by (simp add: save_snapshot_def)
  next
    case False
    have "length (encode_record cd s)
        \<le> 20 + 10 * min (n_nodes s) SNAP_MAX + 32 * min (n_immediate s) SNAP_MAX"
      using bd by (rule length_encode_record)
    also have "\<dots> \<le> 20 + 10 * n_nodes s + 32 * n_immediate s" by simp
    finally have len: "m_pos c + length (encode_record cd s) < m_size c" using room by simp
    then have le: "m_pos c \<le> length (m_data c)" using sz by simp
    have "save_snapshot cd s c = map_option incr_nrec (put (encode_record cd s) c)"
      using le False by (rule save_snapshot_put)
    with len sz show ?thesis by (simp add: put_def incr_nrec_def)
  qed
qed

theorem fits_save_snapshot_in_bounds_witness:
  "coder_bounded spec_coder
   \<and> m_size (new_chunk 1024) = length (m_data (new_chunk 1024))
   \<and> m_pos (new_chunk 1024) + (20 + 10 * n_nodes scenario_snapshot + 32 * n_immediate scenario_snapshot)
        < SIZE_T_RANGE
   \<and> fits (new_chunk 1024) scenario_snapshot
   \<and> (\<exists>c'. save_snapshot spec_coder scenario_snapshot (new_chunk 1024) = Some c'
          \<and> m_pos c' \<le> m_size c' \<and> m_size c' = m_size (new_chunk 1024)
          \<and> length (m_data c') = m_size c')"
proof -
  have a: "m_size (new_chunk 1024) = length (m_data (new_chunk 1024))"
    by (simp add: new_chunk_def)
  have b: "m_pos (new_chunk 1024)
      + (20 + 10 * n_nodes scenario_snapshot + 32 * n_immediate scenario_snapshot) < SIZE_T_RANGE"
    by (simp add: new_chunk_def scenario_snapshot_def n_nodes_def n_immediate_def SIZE_T_RANGE_def)
  have c: "fits (new_chunk 1024) scenario_snapshot"
    by (simp add: fits_def new_chunk_def scenario_snapshot_def n_nodes_def n_immediate_def
        SIZE_T_RANGE_def)
  show ?thesis
    using fits_save_snapshot_in_bounds [OF spec_coder_bounded a b c] spec_coder_bounded a b c
    by simp
qed

section \<open>Round trip and truncation\<close>

text \<open>
  C1. For a snapshot with at most \<open>SNAP_MAX\<close> node entries and immediate entries,
  saved into an empty chunk and flushed: with no entry at all nothing is recorded and
  nothing emitted; otherwise \<open>flush\<close> returns 1 and the sink receives, after the paths
  of the fresh ids, one record with exactly the snapshot's node ids, attribute ids
  and values, in their order (and \<open>to_id\<close> reads the ids back from the emitted
  vectors).
\<close>

theorem save_flush_roundtrip:
  assumes rt: "coder_roundtrip cd" and par: "parallel_immediates s"
    and nn: "n_nodes s \<le> SNAP_MAX" and ni: "n_immediate s \<le> SNAP_MAX"
    and c: "m_size c = length (m_data c)" "m_pos c = 0" "m_nrec c = 0" "m_next c = None"
    and sv: "save_snapshot cd s c = Some c'"
  shows "flush cd ca c' out
       = Some (if n_nodes s + n_immediate s = 0 then (0, reset c, out)
               else (1, reset c,
                 out\<lparr>written_node_cache := written_node_cache out
                        \<union> set (map id_Node (node_entries s) @ immediate_attr s),
                     sink := sink out
                       @ path_events ca (fresh_ids (written_node_cache out)
                           (map id_Node (node_entries s) @ immediate_attr s))
                       @ [WriteRecord (int (n_nodes s)) (int (n_immediate s)) (int (n_immediate s))
                            (map (\<lambda>n. Variant_of_id cd (id_Node n)) (node_entries s))
                            (map (Variant_of_id cd) (immediate_attr s))
                            (immediate_data s)]\<rparr>))
     \<and> map (to_id cd) (map (\<lambda>n. Variant_of_id cd (id_Node n)) (node_entries s))
         = map id_Node (node_entries s)
     \<and> map (to_id cd) (map (Variant_of_id cd) (immediate_attr s)) = immediate_attr s"
proof -
  have id: "\<And>i. to_id cd (Variant_of_id cd i) = i"
    using rt by (simp add: coder_roundtrip_def)
  have ids: "map (to_id cd) (map (\<lambda>n. Variant_of_id cd (id_Node n)) (node_entries s))
         = map id_Node (node_entries s)"
      "map (to_id cd) (map (Variant_of_id cd) (immediate_attr s)) = immediate_attr s"
    by (simp_all add: id comp_def)
  show ?thesis
  proof (cases "n_nodes s + n_immediate s = 0")
    case True
    then have "c' = c" using sv by (simp add: save_snapshot_def)
    moreover have "flush cd ca c out = Some (0, reset c, out)"
      using c by (cases c) (simp add: reset_def)
    ultimately show ?thesis using True ids by simp
  next
    case False
    with nn ni have ne: "(n_nodes s + n_immediate s) mod SIZE_T_RANGE \<noteq> 0"
      by (simp add: SNAP_MAX_def SIZE_T_RANGE_def)
    have r: "record_ids s = map id_Node (node_entries s) @ immediate_attr s"
      using nn ni by (simp add: record_ids_def n_nodes_def n_immediate_def)
    have e: "record_event cd s
        = WriteRecord (int (n_nodes s)) (int (n_immediate s)) (int (n_immediate s))
            (map (\<lambda>n. Variant_of_id cd (id_Node n)) (node_entries s))
            (map (Variant_of_id cd) (immediate_attr s)) (immediate_data s)"
      using nn ni par
      by (simp add: record_event_def n_nodes_def n_immediate_def parallel_immediates_def min_def)
    show ?thesis
      using flush_saved_snapshot [OF rt par ne c sv, of ca out] False ids
      by (simp only: r e) simp
  qed
qed

theorem save_flush_roundtrip_witness:
  "coder_roundtrip spec_coder \<and> parallel_immediates scenario_snapshot
   \<and> n_nodes scenario_snapshot \<le> SNAP_MAX \<and> n_immediate scenario_snapshot \<le> SNAP_MAX
   \<and> m_size (new_chunk 32) = length (m_data (new_chunk 32))
   \<and> m_pos (new_chunk 32) = 0 \<and> m_nrec (new_chunk 32) = 0 \<and> m_next (new_chunk 32) = None
   \<and> save_snapshot spec_coder scenario_snapshot (new_chunk 32) = Some scenario_chunk
   \<and> flush spec_coder scenario_tree scenario_chunk nothing_written
       = Some (1, new_chunk 32,
           \<lparr>written_node_cache = {5, 9, 12, 2, 3},
            sink = [WritePath (Node 5 None), WritePath (Node 9 (Some (Node 5 None))),
                    WritePath (Node 2 None), WritePath (Node 3 None),
                    WriteRecord 3 2 2
                      [Variant ID_TAG 5, Variant ID_TAG 9, Variant ID_TAG 12]
                      [Variant ID_TAG 2, Variant ID_TAG 3]
                      [Variant 1 7, Variant 2 120]],
            released = 0\<rparr>)"
proof -
  have p: "parallel_immediates scenario_snapshot"
    and n: "n_nodes scenario_snapshot \<le> SNAP_MAX" "n_immediate scenario_snapshot \<le> SNAP_MAX"
    by (simp_all add: parallel_immediates_def scenario_snapshot_def n_nodes_def n_immediate_def
        SNAP_MAX_def)
  have c: "m_size (new_chunk 32) = length (m_data (new_chunk 32))"
      "m_pos (new_chunk 32) = 0" "m_nrec (new_chunk 32) = 0" "m_next (new_chunk 32) = None"
    by (simp_all add: new_chunk_def)
  show ?thesis
    using save_flush_roundtrip [OF spec_coder_roundtrip p n c scenario_saved,
        of scenario_tree nothing_written]
      spec_coder_roundtrip p n c scenario_saved
    by (simp add: scenario_snapshot_def scenario_tree_def nothing_written_def n_nodes_def
        n_immediate_def reset_def new_chunk_def path_events_def node_def spec_coder_def)
qed

text \<open>
  C6. For a snapshot with more than \<open>SNAP_MAX\<close> node entries (or immediate
  entries), saved into an empty chunk and flushed: the chunk is the one saving the
  clamped snapshot gives, the emitted record holds the first \<open>SNAP_MAX\<close> entries of
  each sequence and nothing else, and a node whose id is not among the kept ids gets
  no path emission.
\<close>

theorem save_flush_truncation:
  assumes rt: "coder_roundtrip (cd :: 'v coder)" and par: "parallel_immediates s"
    and over: "SNAP_MAX < n_nodes s \<or> SNAP_MAX < n_immediate s"
    and nov: "n_nodes s + n_immediate s < SIZE_T_RANGE"
    and c: "m_size c = length (m_data c)" "m_pos c = 0" "m_nrec c = 0" "m_next c = None"
    and sv: "save_snapshot cd s c = Some c'"
  shows "save_snapshot cd (clamped s) c = Some c'
     \<and> flush cd ca c' out
       = Some (1, reset c,
           out\<lparr>written_node_cache := written_node_cache out \<union> set (record_ids s),
               sink := sink out
                 @ path_events ca (fresh_ids (written_node_cache out) (record_ids s))
                 @ [WriteRecord (int (min (n_nodes s) SNAP_MAX)) (int (min (n_immediate s) SNAP_MAX))
                      (int (min (n_immediate s) SNAP_MAX))
                      (map (\<lambda>n. Variant_of_id cd (id_Node n)) (take SNAP_MAX (node_entries s)))
                      (map (Variant_of_id cd) (take SNAP_MAX (immediate_attr s)))
                      (take SNAP_MAX (immediate_data s))]\<rparr>)
     \<and> (\<forall>n. id_Node n \<notin> set (record_ids s)
           \<longrightarrow> n_path_emissions n
                 (path_events ca (fresh_ids (written_node_cache out) (record_ids s)) :: 'v event list) = 0)"
proof -
  from over nov have ne: "(n_nodes s + n_immediate s) mod SIZE_T_RANGE \<noteq> 0"
    by auto
  from over have ne': "(n_nodes (clamped s) + n_immediate (clamped s)) mod SIZE_T_RANGE \<noteq> 0"
    by (auto simp: clamped_def n_nodes_def n_immediate_def SNAP_MAX_def SIZE_T_RANGE_def min_def)
  have le: "m_pos c \<le> length (m_data c)" using c by simp
  have a: "save_snapshot cd (clamped s) c = Some c'"
    using sv save_snapshot_put [OF le ne, of cd] save_snapshot_put [OF le ne', of cd]
    by (simp add: encode_record_clamped)
  have e: "record_event cd s
        = WriteRecord (int (min (n_nodes s) SNAP_MAX)) (int (min (n_immediate s) SNAP_MAX))
            (int (min (n_immediate s) SNAP_MAX))
            (map (\<lambda>n. Variant_of_id cd (id_Node n)) (take SNAP_MAX (node_entries s)))
            (map (Variant_of_id cd) (take SNAP_MAX (immediate_attr s)))
            (take SNAP_MAX (immediate_data s))"
    using par by (simp add: record_event_def n_immediate_def parallel_immediates_def min_def)
  have p: "\<forall>n. id_Node n \<notin> set (record_ids s)
           \<longrightarrow> n_path_emissions n
                 (path_events ca (fresh_ids (written_node_cache out) (record_ids s)) :: 'v event list) = 0"
  proof (intro allI impI)
    fix n assume n: "id_Node n \<notin> set (record_ids s)"
    have "node ca j = Some n \<Longrightarrow> j \<notin> set (fresh_ids (written_node_cache out) (record_ids s))" for j
      using n node_Some_id [of ca j n] by (auto simp: set_fresh_ids)
    then show "n_path_emissions n
        (path_events ca (fresh_ids (written_node_cache out) (record_ids s)) :: 'v event list) = 0"
      by (auto simp: n_path_emissions_path_events filter_empty_conv)
  qed
  show ?thesis
    using a flush_saved_snapshot [OF rt par ne c sv, of ca out] p
    by (simp only: e)
qed

theorem save_flush_truncation_witness:
  "coder_roundtrip spec_coder \<and> parallel_immediates wide_snapshot
   \<and> SNAP_MAX < n_nodes wide_snapshot
   \<and> n_nodes wide_snapshot + n_immediate wide_snapshot < SIZE_T_RANGE
   \<and> m_size (new_chunk 128) = length (m_data (new_chunk 128))
   \<and> m_pos (new_chunk 128) = 0 \<and> m_nrec (new_chunk 128) = 0 \<and> m_next (new_chunk 128) = None
   \<and> save_snapshot spec_coder wide_snapshot (new_chunk 128) = Some wide_chunk
   \<and> save_snapshot spec_coder (clamped wide_snapshot) (new_chunk 128) = Some wide_chunk
   \<and> flush spec_coder scenario_tree wide_chunk nothing_written
       = Some (1, new_chunk 128,
           \<lparr>written_node_cache = {5, 2},
            sink = [WritePath (Node 5 None), WritePath (Node 2 None),
                    WriteRecord 80 1 1 (replicate 80 (Variant ID_TAG 5)) [Variant ID_TAG 2]
                      [Variant 1 7]],
            released = 0\<rparr>)"
proof -
  have p: "parallel_immediates wide_snapshot"
    by (simp add: parallel_immediates_def wide_snapshot_def)
  have o: "SNAP_MAX < n_nodes wide_snapshot \<or> SNAP_MAX < n_immediate wide_snapshot"
    and o1: "SNAP_MAX < n_nodes wide_snapshot"
    by (simp_all add: wide_snapshot_def n_nodes_def SNAP_MAX_def)
  have v: "n_nodes wide_snapshot + n_immediate wide_snapshot < SIZE_T_RANGE"
    by (simp add: wide_snapshot_def n_nodes_def n_immediate_def SIZE_T_RANGE_def)
  have c: "m_size (new_chunk 128) = length (m_data (new_chunk 128))"
      "m_pos (new_chunk 128) = 0" "m_nrec (new_chunk 128) = 0" "m_next (new_chunk 128) = None"
    by (simp_all add: new_chunk_def)
  have ids: "record_ids wide_snapshot = replicate 80 5 @ [2]"
    by (simp add: record_ids_def wide_snapshot_def SNAP_MAX_def)
  have fr: "fresh_ids {} (replicate 80 5 @ [2]) = [5, 2]"
  proof -
    have "fresh_ids {5} (replicate n 5 @ [2]) = [2]" for n
      by (induction n) simp_all
    then have "fresh_ids {} ((5 # replicate 79 5) @ [2]) = [5, 2]"
      by simp
    moreover have "replicate 80 (5 :: cali_id_t) = 5 # replicate 79 5"
      using replicate_Suc [of 79 "5 :: cali_id_t"] by simp
    ultimately show ?thesis by simp
  qed
  have pe: "(path_events scenario_tree [5, 2] :: Variant event list)
      = [WritePath (Node 5 None), WritePath (Node 2 None)]"
    by (simp add: path_events_def node_def scenario_tree_def)
  have tk: "take SNAP_MAX (node_entries wide_snapshot) = replicate 80 (Node 5 None)"
      "take SNAP_MAX (immediate_attr wide_snapshot) = [2]"
      "take SNAP_MAX (immediate_data wide_snapshot) = [Variant 1 7]"
      "min (n_nodes wide_snapshot) SNAP_MAX = 80" "min (n_immediate wide_snapshot) SNAP_MAX = 1"
    by (simp_all add: wide_snapshot_def SNAP_MAX_def n_nodes_def n_immediate_def)
  have rs: "reset (new_chunk 128) = new_chunk 128"
    by (simp add: reset_def new_chunk_def)
  have st: "written_node_cache nothing_written \<union> set (replicate 80 5 @ [2]) = {5, 2}"
    by (auto simp: nothing_written_def)
  have vi: "Variant_of_id spec_coder = Variant ID_TAG"
    by (simp add: spec_coder_def)
  have nw: "nothing_written\<lparr>written_node_cache := {5, 2},
      sink := sink nothing_written @ [WritePath (Node 5 None), WritePath (Node 2 None)]
        @ [WriteRecord 80 1 1 (replicate 80 (Variant ID_TAG 5)) [Variant ID_TAG 2] [Variant 1 7]]\<rparr>
    = \<lparr>written_node_cache = {5, 2},
            sink = [WritePath (Node 5 None), WritePath (Node 2 None),
                    WriteRecord 80 1 1 (replicate 80 (Variant ID_TAG 5)) [Variant ID_TAG 2]
                      [Variant 1 7]],
            released = 0\<rparr>"
    by (simp add: nothing_written_def)
  have cw: "written_node_cache nothing_written = {}"
    by (simp add: nothing_written_def)
  from save_flush_truncation [OF spec_coder_roundtrip p o v c wide_saved,
        of scenario_tree nothing_written]
  have "save_snapshot spec_coder (clamped wide_snapshot) (new_chunk 128) = Some wide_chunk
     \<and> flush spec_coder scenario_tree wide_chunk nothing_written
       = Some (1, new_chunk 128,
           \<lparr>written_node_cache = {5, 2},
            sink = [WritePath (Node 5 None), WritePath (Node 2 None),
                    WriteRecord 80 1 1 (replicate 80 (Variant ID_TAG 5)) [Variant ID_TAG 2]
                      [Variant 1 7]],
            released = 0\<rparr>)"
    unfolding ids tk rs st vi
    by (simp add: cw fr pe) (simp add: nothing_written_def)
  then show ?thesis
    using spec_coder_roundtrip p o1 v c wide_saved by simp
qed

section \<open>Flushing a chain\<close>

text \<open>
  C4. For a chain that holds records, \<open>flush\<close> returns their total number; the head
  chunk afterwards has record count 0, position 0 and no successor, and every
  successor chunk has been released.
\<close>

theorem flush_chain_conservation:
  assumes "coder_roundtrip cd" and "chain_holds cd ch sss"
  shows "\<exists>ch' out'. flush cd c ch out = Some (total_records ch, ch', out')
           \<and> total_records ch = length (concat sss)
           \<and> m_nrec ch' = 0 \<and> m_pos ch' = 0 \<and> m_next ch' = None
           \<and> released out' = released out + (length (chunks_of ch) - 1)"
proof -
  have "destroy ch = length (chunks_of ch)" for ch
    by (induction ch rule: chunks_of.induct) (auto split: option.splits)
  then show ?thesis
    using flush_chain_events [OF assms, of c out] chain_holds_counts [OF assms(2)]
    by simp
qed

theorem flush_chain_conservation_witness:
  "coder_roundtrip spec_coder
   \<and> chain_holds spec_coder scenario_chain
        [[scenario_snapshot, scenario_snapshot], [narrow_snapshot]]
   \<and> total_records scenario_chain = 3
   \<and> (\<exists>ch' out'. flush spec_coder scenario_tree scenario_chain nothing_written = Some (3, ch', out')
          \<and> m_nrec ch' = 0 \<and> m_pos ch' = 0 \<and> m_next ch' = None
          \<and> released out' = 1)"
proof -
  have t: "total_records scenario_chain = 3"
    and l: "length (chunks_of scenario_chain) = 2"
    by (simp_all add: scenario_chain_def total_records_def)
  have r: "released nothing_written = 0"
    by (simp add: nothing_written_def)
  show ?thesis
    using flush_chain_conservation [OF spec_coder_roundtrip chain_holds_scenario,
        of scenario_tree nothing_written]
      spec_coder_roundtrip chain_holds_scenario
    by (simp add: t l r)
qed

text \<open>
  C5. A chunk holds two records that both refer to the id \<open>N\<close> of a node of the
  context tree, and \<open>N\<close> is not in the cache: the flush adds exactly one path emission
  for that node and exactly two record emissions to the sink.
\<close>

theorem flush_dedup_two_records:
  assumes rt: "coder_roundtrip cd" and h: "chain_holds cd ch [[s1, s2]]"
    and r1: "N \<in> set (record_ids s1)" and r2: "N \<in> set (record_ids s2)"
    and fresh: "N \<notin> written_node_cache out" and res: "node c N = Some n"
  shows "\<exists>ch' out' es. flush cd c ch out = Some (2, ch', out')
           \<and> sink out' = sink out @ es
           \<and> n_path_emissions n es = 1 \<and> n_record_emissions es = 2"
proof -
  let ?es = "new_events cd c (written_node_cache out) [s1, s2]"
  have "total_records ch = 2"
    using chain_holds_counts [OF h] by simp
  moreover have "n_path_emissions n ?es = 1"
    using r1 fresh by (simp only: n_path_emissions_new_events n_path_emissions_resolved [OF res]) simp
  moreover have "n_record_emissions ?es = 2"
    by (simp only: n_record_emissions_new_events) simp
  ultimately show ?thesis
    using flush_chain_events [OF rt h, of c out] by simp
qed

theorem flush_dedup_two_records_witness:
  "coder_roundtrip spec_coder
   \<and> chain_holds spec_coder twice_chunk [[scenario_snapshot, scenario_snapshot]]
   \<and> 5 \<in> set (record_ids scenario_snapshot)
   \<and> 5 \<notin> written_node_cache nothing_written
   \<and> node scenario_tree 5 = Some (Node 5 None)
   \<and> (\<exists>ch' out' es. flush spec_coder scenario_tree twice_chunk nothing_written = Some (2, ch', out')
          \<and> sink out' = sink nothing_written @ es
          \<and> n_path_emissions (Node 5 None) es = 1 \<and> n_record_emissions es = 2)"
proof -
  have r: "5 \<in> set (record_ids scenario_snapshot)"
    by (simp add: record_ids_def scenario_snapshot_def SNAP_MAX_def)
  have f: "5 \<notin> written_node_cache nothing_written"
    by (simp add: nothing_written_def)
  have n: "node scenario_tree 5 = Some (Node 5 None)"
    by (simp add: node_def scenario_tree_def)
  show ?thesis
    using flush_dedup_two_records [OF spec_coder_roundtrip twice_holds r r f n]
      spec_coder_roundtrip twice_holds r f n
    by simp
qed

text \<open>
  C7. A chain holds records, one of which refers to an id \<open>i\<close> that is not in the
  cache and that the context tree does not resolve: the flush completes and returns
  the total number of records, adds no path emission for a node with id \<open>i\<close>, leaves
  \<open>i\<close> and every other id referred to in the cache, emits every record, and emits
  exactly one path for every other fresh id that the tree resolves.
\<close>

theorem flush_unresolvable_id:
  assumes rt: "coder_roundtrip cd" and h: "chain_holds cd ch sss"
    and ref: "i \<in> set (concat (map record_ids (concat sss)))"
    and fresh: "i \<notin> written_node_cache out" and unres: "node c i = None"
  shows "\<exists>ch' out' es. flush cd c ch out = Some (total_records ch, ch', out')
           \<and> sink out' = sink out @ es
           \<and> (\<forall>n. id_Node n = i \<longrightarrow> n_path_emissions n es = 0)
           \<and> i \<in> written_node_cache out'
           \<and> set (concat (map record_ids (concat sss))) \<subseteq> written_node_cache out'
           \<and> n_record_emissions es = total_records ch
           \<and> (\<forall>j n. j \<in> set (concat (map record_ids (concat sss)))
                   \<and> j \<notin> written_node_cache out \<and> node c j = Some n
                 \<longrightarrow> n_path_emissions n es = 1)"
proof -
  let ?es = "new_events cd c (written_node_cache out) (concat sss)"
  have a: "\<forall>n. id_Node n = i \<longrightarrow> n_path_emissions n ?es = 0"
    using unres by (auto simp: n_path_emissions_new_events n_path_emissions_unresolved)
  have b: "n_record_emissions ?es = total_records ch"
    using chain_holds_counts [OF h] by (simp add: n_record_emissions_new_events)
  have d: "\<forall>j n. j \<in> set (concat (map record_ids (concat sss)))
                   \<and> j \<notin> written_node_cache out \<and> node c j = Some n
                 \<longrightarrow> n_path_emissions n ?es = 1"
  proof (intro allI impI, elim conjE)
    fix j n
    assume j: "j \<in> set (concat (map record_ids (concat sss)))"
      and f: "j \<notin> written_node_cache out" and r: "node c j = Some n"
    show "n_path_emissions n ?es = 1"
      using j f by (simp only: n_path_emissions_new_events n_path_emissions_resolved [OF r]) simp
  qed
  show ?thesis
    using flush_chain_events [OF rt h, of c out] a b d ref by auto
qed

theorem flush_unresolvable_id_witness:
  "coder_roundtrip spec_coder
   \<and> chain_holds spec_coder scenario_chain
        [[scenario_snapshot, scenario_snapshot], [narrow_snapshot]]
   \<and> 12 \<in> set (concat (map record_ids
          (concat [[scenario_snapshot, scenario_snapshot], [narrow_snapshot]])))
   \<and> 12 \<notin> written_node_cache nothing_written
   \<and> node scenario_tree 12 = None
   \<and> (\<exists>ch' out' es. flush spec_coder scenario_tree scenario_chain nothing_written
            = Some (3, ch', out')
          \<and> sink out' = sink nothing_written @ es
          \<and> n_path_emissions (Node 12 None) es = 0
          \<and> 12 \<in> written_node_cache out'
          \<and> n_record_emissions es = 3
          \<and> n_path_emissions (Node 9 (Some (Node 5 None))) es = 1)"
proof -
  have r: "12 \<in> set (concat (map record_ids
          (concat [[scenario_snapshot, scenario_snapshot], [narrow_snapshot]])))"
    and r9: "9 \<in> set (concat (map record_ids
          (concat [[scenario_snapshot, scenario_snapshot], [narrow_snapshot]])))"
    by (simp_all add: record_ids_def scenario_snapshot_def SNAP_MAX_def)
  have f: "12 \<notin> written_node_cache nothing_written"
    and f9: "9 \<notin> written_node_cache nothing_written"
    by (simp_all add: nothing_written_def)
  have n: "node scenario_tree 12 = None"
    and n9: "node scenario_tree 9 = Some (Node 9 (Some (Node 5 None)))"
    by (simp_all add: node_def scenario_tree_def)
  have t: "total_records scenario_chain = 3"
    by (simp add: scenario_chain_def total_records_def)
  from flush_unresolvable_id [OF spec_coder_roundtrip chain_holds_scenario r f n,
      of ]
  obtain ch' out' es where
    "flush spec_coder scenario_tree scenario_chain nothing_written
        = Some (total_records scenario_chain, ch', out')"
    "sink out' = sink nothing_written @ es"
    "\<forall>n. id_Node n = 12 \<longrightarrow> n_path_emissions n es = 0"
    "12 \<in> written_node_cache out'"
    "n_record_emissions es = total_records scenario_chain"
    "\<forall>j n. j \<in> set (concat (map record_ids
          (concat [[scenario_snapshot, scenario_snapshot], [narrow_snapshot]])))
        \<and> j \<notin> written_node_cache nothing_written \<and> node scenario_tree j = Some n
        \<longrightarrow> n_path_emissions n es = 1"
    by blast
  then have "flush spec_coder scenario_tree scenario_chain nothing_written = Some (3, ch', out')
          \<and> sink out' = sink nothing_written @ es
          \<and> n_path_emissions (Node 12 None) es = 0
          \<and> 12 \<in> written_node_cache out'
          \<and> n_record_emissions es = 3
          \<and> n_path_emissions (Node 9 (Some (Node 5 None))) es = 1"
    using t r9 f9 n9 by auto
  then show ?thesis
    using spec_coder_roundtrip chain_holds_scenario r f n by blast
qed

text \<open>
  C9. Whatever the chain and the cache, an id in the cache before \<open>flush\<close> is in the
  cache after it.
\<close>

theorem flush_cache_monotone:
  "flush cd c ch out = Some (w, ch', out') \<Longrightarrow> written_node_cache out \<subseteq> written_node_cache out'"
proof (induction cd c ch out arbitrary: w ch' out' rule: flush.induct)
  case (1 cd c sz pos nrec dat nxt out)
  from "1.prems" obtain out1 where l: "flush_records cd c dat nrec 0 out = Some out1"
    by (auto split: option.splits)
  then have m1: "written_node_cache out \<subseteq> written_node_cache out1"
    by (rule flush_records_cache_mono)
  show ?case
  proof (cases nxt)
    case None
    with "1.prems" l have "out' = out1" by simp
    with m1 show ?thesis by simp
  next
    case (Some nx)
    with "1.prems" l obtain w2 nx' out2 where f: "flush cd c nx out1 = Some (w2, nx', out2)"
        and o: "out' = out2\<lparr>released := released out2 + destroy nx'\<rparr>"
      by (auto split: option.splits)
    from "1.IH" [OF l Some f] have "written_node_cache out1 \<subseteq> written_node_cache out2" .
    with m1 o show ?thesis by auto
  qed
qed

theorem flush_cache_monotone_witness:
  "flush spec_coder scenario_tree scenario_chunk partly_written
     = Some (1, new_chunk 32,
         \<lparr>written_node_cache = {5, 77, 9, 12, 2, 3},
          sink = [WritePath (Node 9 (Some (Node 5 None))), WritePath (Node 2 None),
                  WritePath (Node 3 None),
                  WriteRecord 3 2 2
                    [Variant ID_TAG 5, Variant ID_TAG 9, Variant ID_TAG 12]
                    [Variant ID_TAG 2, Variant ID_TAG 3]
                    [Variant 1 7, Variant 2 120]],
          released = 0\<rparr>)
   \<and> written_node_cache partly_written \<subseteq> {5, 77, 9, 12, 2, 3}"
  using flush_cache_monotone [OF scenario_flushed] scenario_flushed
  by simp

end
